theory Spec2Isabelle
  imports Main "HOL-Library.Code_Target_Nat"
begin

section \<open>The product cache (src/server.js, LOOKUPS & CACHE)\<close>

text \<open>
  \<^verbatim>\<open>const CACHE = new Map();\<close> A JavaScript \<^verbatim>\<open>Map\<close> keeps its entries in insertion
  order: \<^verbatim>\<open>set\<close> on a key that is present replaces the value in place, \<^verbatim>\<open>set\<close> on a new
  key appends the entry, \<^verbatim>\<open>delete\<close> removes it, \<^verbatim>\<open>keys().next().value\<close> is the key of the
  first entry (\<^verbatim>\<open>undefined\<close> on an empty map). The model is the list of entries in that
  order. Handles are strings.
\<close>

type_synonym handle = string

type_synonym 'v jsmap = "(handle \<times> 'v) list"

definition map_keys :: "'v jsmap \<Rightarrow> handle list" where
  "map_keys m = map fst m"

definition map_has :: "'v jsmap \<Rightarrow> handle \<Rightarrow> bool" where
  "map_has m k = (k \<in> set (map_keys m))"

definition map_get :: "'v jsmap \<Rightarrow> handle \<Rightarrow> 'v option" where
  "map_get m k = map_of m k"

fun map_set :: "'v jsmap \<Rightarrow> handle \<Rightarrow> 'v \<Rightarrow> 'v jsmap" where
  "map_set [] k v = [(k, v)]"
| "map_set ((k', v') # m) k v =
     (if k' = k then (k, v) # m else (k', v') # map_set m k v)"

definition map_delete :: "'v jsmap \<Rightarrow> handle \<Rightarrow> 'v jsmap" where
  "map_delete m k = filter (\<lambda>e. fst e \<noteq> k) m"

definition map_first_key :: "'v jsmap \<Rightarrow> handle option" where
  "map_first_key m = (case m of [] \<Rightarrow> None | e # _ \<Rightarrow> Some (fst e))"

text \<open>\<^verbatim>\<open>const CACHE_LIMIT = 1000;\<close>\<close>

definition CACHE_LIMIT :: nat where
  "CACHE_LIMIT = 1000"

text \<open>
  \<^verbatim>\<open>
  function cacheSetLimited(handle, prod) {
    if (CACHE.size >= CACHE_LIMIT) {
      const firstKey = CACHE.keys().next().value;
      if (firstKey) CACHE.delete(firstKey);
    }
    CACHE.set(handle, prod);
  }
  \<close>
  \<^verbatim>\<open>if (firstKey)\<close> is JavaScript truthiness: \<^verbatim>\<open>undefined\<close> (the empty map) and the empty
  string are both falsy, so an empty first key is not deleted. The limit is taken as an
  argument by \<open>cacheSetLimited_at\<close>; the program's function is its instance at
  \<open>CACHE_LIMIT\<close>.
\<close>

definition cacheSetLimited_at :: "nat \<Rightarrow> 'v jsmap \<Rightarrow> handle \<Rightarrow> 'v \<Rightarrow> 'v jsmap" where
  "cacheSetLimited_at lim c h p =
     (let c1 = (if lim \<le> length c
                then (case map_first_key c of
                        None \<Rightarrow> c
                      | Some firstKey \<Rightarrow> if firstKey \<noteq> [] then map_delete c firstKey else c)
                else c)
      in map_set c1 h p)"

definition cacheSetLimited :: "'v jsmap \<Rightarrow> handle \<Rightarrow> 'v \<Rightarrow> 'v jsmap" where
  "cacheSetLimited = cacheSetLimited_at CACHE_LIMIT"

text \<open>A sequence of cache writes, applied in order to the empty cache of a fresh server.\<close>

definition cache_after_at :: "nat \<Rightarrow> (handle \<times> 'v) list \<Rightarrow> 'v jsmap" where
  "cache_after_at lim ins = foldl (\<lambda>c e. cacheSetLimited_at lim c (fst e) (snd e)) [] ins"

definition cache_after :: "(handle \<times> 'v) list \<Rightarrow> 'v jsmap" where
  "cache_after = cache_after_at CACHE_LIMIT"

text \<open>
  Caches whose keys are distinct (as in every \<^verbatim>\<open>Map\<close>) and non-empty. The guard
  \<^verbatim>\<open>if (firstKey)\<close> treats an empty first key like an absent one, so the lemmas on eviction
  below are about caches without an empty key; what happens with one is shown after them.
\<close>

definition cache_wf :: "'v jsmap \<Rightarrow> bool" where
  "cache_wf c = (distinct (map_keys c) \<and> [] \<notin> set (map_keys c))"

text \<open>A family of distinct non-empty handles (\<open>a\<close>, \<open>aa\<close>, \<open>aaa\<close>, ...), each with a value
  made from its index, to exhibit caches at and beyond the limit.\<close>

definition sample_entries :: "(nat \<Rightarrow> 'v) \<Rightarrow> nat \<Rightarrow> (handle \<times> 'v) list" where
  "sample_entries f n = map (\<lambda>i. (replicate (Suc i) CHR ''a'', f i)) [0..<n]"

definition sample_inserts :: "nat \<Rightarrow> (handle \<times> nat) list" where
  "sample_inserts n = sample_entries (\<lambda>i. i) n"

subsection \<open>Properties of the cache\<close>

lemma sample_entries_keys:
  "[] \<notin> fst ` set (sample_entries f n) \<and> distinct (map fst (sample_entries f n))"
  by (auto simp: sample_entries_def distinct_map comp_def intro!: inj_onI dest: arg_cong[where f=length])

lemma sample_inserts_keys:
  "[] \<notin> fst ` set (sample_inserts n) \<and> distinct (map fst (sample_inserts n))"
  unfolding sample_inserts_def by (rule sample_entries_keys)

lemma map_keys_map_set:
  "map_keys (map_set m k v) = (if k \<in> set (map_keys m) then map_keys m else map_keys m @ [k])"
  by (induction m) (fastforce simp: map_keys_def)+

lemma map_set_fresh: "k \<notin> set (map_keys m) \<Longrightarrow> map_set m k v = m @ [(k, v)]"
  by (induction m) (auto simp: map_keys_def)

lemma length_map_set:
  "length (map_set m k v) = (if k \<in> set (map_keys m) then length m else Suc (length m))"
  by (induction m) (fastforce simp: map_keys_def)+

lemma map_get_map_set: "map_get (map_set m k v) k' = (if k' = k then Some v else map_get m k')"
  by (induction m) (auto simp: map_get_def)

lemma map_delete_first:
  "distinct (map_keys (e # m)) \<Longrightarrow> map_delete (e # m) (fst e) = m"
  by (auto simp: map_delete_def map_keys_def filter_id_conv image_iff)

lemma cacheSetLimited_at_full:
  assumes "cache_wf c" "lim \<le> length c" "0 < lim"
  shows "cacheSetLimited_at lim c h p = map_set (tl c) h p"
proof (cases c)
  case Nil
  with assms show ?thesis by simp
next
  case (Cons e m)
  with assms have "fst e \<noteq> []" "distinct (map_keys (e # m))"
    by (auto simp: cache_wf_def map_keys_def)
  then have "map_delete (e # m) (fst e) = m" using map_delete_first by blast
  with Cons assms \<open>fst e \<noteq> []\<close> show ?thesis
    by (simp add: cacheSetLimited_at_def map_first_key_def)
qed

lemma cacheSetLimited_at_room:
  "length c < lim \<Longrightarrow> cacheSetLimited_at lim c h p = map_set c h p"
  by (simp add: cacheSetLimited_at_def)

lemma cache_wf_tl: "cache_wf c \<Longrightarrow> cache_wf (tl c)"
  by (cases c) (auto simp: cache_wf_def map_keys_def)

lemma cache_wf_map_set: "cache_wf c \<Longrightarrow> h \<noteq> [] \<Longrightarrow> cache_wf (map_set c h p)"
  by (auto simp: cache_wf_def map_keys_map_set)

lemma cache_wf_cacheSetLimited_at:
  assumes "cache_wf c" "h \<noteq> []" "0 < lim"
  shows "cache_wf (cacheSetLimited_at lim c h p)"
proof (cases "lim \<le> length c")
  case True
  then show ?thesis
    using assms by (simp add: cacheSetLimited_at_full cache_wf_tl cache_wf_map_set)
next
  case False
  then show ?thesis
    using assms by (simp add: cacheSetLimited_at_room cache_wf_map_set)
qed

lemma length_cacheSetLimited_at:
  assumes "cache_wf c" "length c \<le> lim" "0 < lim"
  shows "length (cacheSetLimited_at lim c h p) \<le> lim"
proof (cases "lim \<le> length c")
  case True
  with assms have "cacheSetLimited_at lim c h p = map_set (tl c) h p"
    by (simp add: cacheSetLimited_at_full)
  moreover have "length (tl c) < lim" using assms True by (cases c) auto
  ultimately show ?thesis by (simp add: length_map_set)
next
  case False
  then show ?thesis by (simp add: cacheSetLimited_at_room length_map_set)
qed

lemma cache_after_at_snoc:
  "cache_after_at lim (ins @ [e]) = cacheSetLimited_at lim (cache_after_at lim ins) (fst e) (snd e)"
  by (simp add: cache_after_at_def)

lemma cache_after_at_inv:
  assumes "0 < lim" "[] \<notin> fst ` set ins"
  shows "cache_wf (cache_after_at lim ins) \<and> length (cache_after_at lim ins) \<le> lim"
  using assms(2)
proof (induction ins rule: rev_induct)
  case Nil
  show ?case by (simp add: cache_after_at_def cache_wf_def map_keys_def)
next
  case (snoc e ins)
  then have IH: "cache_wf (cache_after_at lim ins)" "length (cache_after_at lim ins) \<le> lim"
    and ne: "fst e \<noteq> []" by auto
  show ?case
    unfolding cache_after_at_snoc
    using IH ne assms(1) by (simp add: cache_wf_cacheSetLimited_at length_cacheSetLimited_at)
qed

lemma cache_after_at_fifo:
  assumes "0 < lim" "[] \<notin> fst ` set ins" "distinct (map fst ins)"
  shows "cache_after_at lim ins = drop (length ins - lim) ins"
  using assms(2,3)
proof (induction ins rule: rev_induct)
  case Nil
  show ?case by (simp add: cache_after_at_def)
next
  case (snoc e ins)
  then have IH: "cache_after_at lim ins = drop (length ins - lim) ins"
    and fresh: "fst e \<notin> fst ` set ins" and ne: "[] \<notin> fst ` set ins" by auto
  let ?c = "drop (length ins - lim) ins"
  have wf: "cache_wf ?c" using cache_after_at_inv[OF assms(1) ne] IH by simp
  have "set (tl ?c) \<subseteq> set ins"
    by (metis drop_Suc set_drop_subset tl_drop)
  then have notin: "fst e \<notin> set (map_keys (tl ?c))"
    using fresh by (auto simp: map_keys_def)
  have notin': "fst e \<notin> set (map_keys ?c)"
    using fresh by (auto simp: map_keys_def dest!: in_set_dropD)
  show ?case
  proof (cases "lim \<le> length ins")
    case True
    then have "lim \<le> length ?c" by simp
    then have "cacheSetLimited_at lim ?c (fst e) (snd e) = tl ?c @ [e]"
      using wf assms(1) notin by (simp add: cacheSetLimited_at_full map_set_fresh)
    moreover have "tl ?c = drop (Suc (length ins) - lim) ins"
      using True by (simp add: tl_drop drop_Suc Suc_diff_le)
    ultimately show ?thesis using True IH assms(1) by (simp add: cache_after_at_snoc)
  next
    case False
    then show ?thesis using IH notin' 
      by (simp add: cache_after_at_snoc cacheSetLimited_at_room map_set_fresh)
  qed
qed

text \<open>
  Writes of non-empty handles. Starting from the empty cache, after any sequence of
  writes of non-empty handles the cache holds at most \<open>CACHE_LIMIT\<close> (1000) entries. When
  the handles written are distinct, the cache is exactly the last 1000 writes in their
  order: the entries evicted are the oldest-inserted ones. A write of a new handle to a
  full cache removes the first (oldest-inserted) entry and appends the new one; reads
  play no part, the order is insertion order and not access recency.
\<close>

lemma nonempty_handles_bounded_fifo:
  assumes "[] \<notin> fst ` set ins"
  shows "length (cache_after ins) \<le> CACHE_LIMIT \<and>
         (distinct (map fst ins) \<longrightarrow> cache_after ins = drop (length ins - CACHE_LIMIT) ins) \<and>
         (CACHE_LIMIT \<le> length (cache_after ins) \<and> h \<noteq> [] \<and> \<not> map_has (cache_after ins) h \<longrightarrow>
            cacheSetLimited (cache_after ins) h p = tl (cache_after ins) @ [(h, p)])"
proof -
  have pos: "0 < CACHE_LIMIT" by (simp add: CACHE_LIMIT_def)
  have inv: "cache_wf (cache_after ins)" "length (cache_after ins) \<le> CACHE_LIMIT"
    using cache_after_at_inv[OF pos assms] by (simp_all add: cache_after_def)
  have fifo: "distinct (map fst ins) \<Longrightarrow> cache_after ins = drop (length ins - CACHE_LIMIT) ins"
    using cache_after_at_fifo[OF pos assms] by (simp add: cache_after_def)
  have evict: "cacheSetLimited (cache_after ins) h p = tl (cache_after ins) @ [(h, p)]"
    if "CACHE_LIMIT \<le> length (cache_after ins)" "\<not> map_has (cache_after ins) h"
  proof -
    have "h \<notin> set (map_keys (tl (cache_after ins)))"
      using that(2) by (cases "cache_after ins") (auto simp: map_has_def map_keys_def)
    then show ?thesis
      using cacheSetLimited_at_full[OF inv(1) that(1) pos]
      by (simp add: cacheSetLimited_def map_set_fresh)
  qed
  show ?thesis using inv(2) fifo evict by blast
qed

lemma nonempty_handles_example:
  "[] \<notin> fst ` set (sample_inserts 1001) \<and> distinct (map fst (sample_inserts 1001)) \<and>
   length (cache_after (sample_inserts 1001)) \<le> CACHE_LIMIT \<and>
   cache_after (sample_inserts 1001) = drop 1 (sample_inserts 1001) \<and>
   CACHE_LIMIT \<le> length (cache_after (sample_inserts 1001)) \<and>
   \<not> map_has (cache_after (sample_inserts 1001)) ''b'' \<and>
   cacheSetLimited (cache_after (sample_inserts 1001)) ''b'' 7 =
     drop 2 (sample_inserts 1001) @ [(''b'', 7)]"
proof -
  let ?S = "sample_inserts 1001"
  have k: "[] \<notin> fst ` set ?S" "distinct (map fst ?S)"
    using sample_inserts_keys by blast+
  have len: "length ?S = 1001" by (simp add: sample_inserts_def sample_entries_def)
  note T = nonempty_handles_bounded_fifo[OF k(1), of "''b''" 7]
  have eq: "cache_after ?S = drop 1 ?S" using T k(2) len by (simp add: CACHE_LIMIT_def)
  have full: "CACHE_LIMIT \<le> length (cache_after ?S)" using eq len by (simp add: CACHE_LIMIT_def)
  have nb: "\<not> map_has (cache_after ?S) ''b''"
    unfolding eq
    by (auto simp: map_has_def map_keys_def sample_inserts_def sample_entries_def dest!: in_set_dropD)
  have "cacheSetLimited (cache_after ?S) ''b'' 7 = tl (cache_after ?S) @ [(''b'', 7)]"
    using T full nb by simp
  then have "cacheSetLimited (cache_after ?S) ''b'' 7 = drop 2 ?S @ [(''b'', 7)]"
    unfolding eq by (simp add: tl_drop drop_Suc numeral_2_eq_2)
  then show ?thesis using k T eq full nb by simp
qed

text \<open>
  Behind an empty first key nothing is ever evicted: the first key read at the limit is
  the empty string, the guard \<^verbatim>\<open>if (firstKey)\<close> fails, and the write only adds its entry.
\<close>

lemma no_eviction_behind_empty_key:
  assumes "distinct (map fst ins)" "ins \<noteq> []" "fst (hd ins) = []"
  shows "cache_after_at lim ins = ins"
  using assms
proof (induction ins rule: rev_induct)
  case Nil
  then show ?case by simp
next
  case (snoc e ins)
  show ?case
  proof (cases "ins = []")
    case True
    then show ?thesis
      by (simp add: cache_after_at_def cacheSetLimited_at_def map_first_key_def)
  next
    case False
    with snoc have IH: "cache_after_at lim ins = ins" and k: "fst (hd ins) = []"
      and fresh: "fst e \<notin> set (map_keys ins)" by (auto simp: map_keys_def)
    from False k have fk: "map_first_key ins = Some []"
      by (cases ins) (auto simp: map_first_key_def)
    have "cacheSetLimited_at lim ins (fst e) (snd e) = map_set ins (fst e) (snd e)"
      using fk by (simp add: cacheSetLimited_at_def)
    then show ?thesis
      using IH fresh by (simp add: cache_after_at_snoc map_set_fresh)
  qed
qed

text \<open>
  The writes of the empty handle followed by 1000 distinct other handles, as
  \<^verbatim>\<open>ensureProductByHandle\<close> makes them when each of these handles is resolved once on a
  fresh server and the store answers each page request with a product page.
\<close>

definition empty_handle_first :: "(handle \<times> nat) list" where
  "empty_handle_first = ([], 0) # sample_inserts 1000"

text \<open>
  Claim C5 states that after inserting more than 1000 distinct handles the cache never
  holds more than 1000 entries, the oldest-inserted one being evicted. The program keeps
  that bound for non-empty handles (\<open>nonempty_handles_bounded_fifo\<close>) and breaks it when
  the oldest entry has the empty handle: after the 1001 distinct writes of
  \<open>empty_handle_first\<close> the cache holds all 1001 entries, nothing was evicted, and the
  empty handle is still the first key, so that no later write evicts anything either.
\<close>

theorem empty_handle_defeats_bound:
  "distinct (map fst empty_handle_first) \<and>
   length empty_handle_first = 1001 \<and>
   cache_after empty_handle_first = empty_handle_first \<and>
   length (cache_after empty_handle_first) = 1001 \<and>
   \<not> length (cache_after empty_handle_first) \<le> CACHE_LIMIT \<and>
   map_first_key (cache_after empty_handle_first) = Some [] \<and>
   cacheSetLimited (cache_after empty_handle_first) ''b'' 7 = empty_handle_first @ [(''b'', 7)]"
proof -
  have d: "distinct (map fst empty_handle_first)"
    using sample_inserts_keys[of 1000] by (auto simp: empty_handle_first_def)
  have l: "length empty_handle_first = 1001"
    by (simp add: empty_handle_first_def sample_inserts_def sample_entries_def)
  have e: "cache_after empty_handle_first = empty_handle_first"
    unfolding cache_after_def
    by (rule no_eviction_behind_empty_key[OF d]) (simp_all add: empty_handle_first_def)
  have f: "map_first_key empty_handle_first = Some []"
    by (simp add: empty_handle_first_def map_first_key_def)
  have nb: "''b'' \<notin> set (map_keys empty_handle_first)"
    by (auto simp: map_keys_def empty_handle_first_def sample_inserts_def sample_entries_def)
  have w: "cacheSetLimited empty_handle_first ''b'' 7 = empty_handle_first @ [(''b'', 7)]"
    using f nb by (simp add: cacheSetLimited_def cacheSetLimited_at_def map_set_fresh)
  show ?thesis using d l e f w by (simp add: CACHE_LIMIT_def)
qed

section \<open>Strings and regular expressions\<close>

text \<open>
  A JavaScript string is a sequence of UTF-16 code units. The model is \<open>string\<close>: one
  \<open>char\<close> for each code unit below 256 (ASCII and the Latin-1 block); code units above
  255 are outside the model. \<^verbatim>\<open>length\<close> is the number of code units.
\<close>

definition code :: "char \<Rightarrow> nat" where
  "code c = of_char c"

definition in_range :: "nat \<Rightarrow> nat \<Rightarrow> char \<Rightarrow> bool" where
  "in_range lo hi c = (lo \<le> code c \<and> code c \<le> hi)"

text \<open>\<^verbatim>\<open>\d\<close> is \<^verbatim>\<open>[0-9]\<close>, \<^verbatim>\<open>\w\<close> is \<^verbatim>\<open>[A-Za-z0-9_]\<close>.\<close>

definition is_digit :: "char \<Rightarrow> bool" where
  "is_digit c = in_range 48 57 c"

definition is_upper :: "char \<Rightarrow> bool" where
  "is_upper c = in_range 65 90 c"

definition is_lower :: "char \<Rightarrow> bool" where
  "is_lower c = in_range 97 122 c"

definition is_word :: "char \<Rightarrow> bool" where
  "is_word c = (is_digit c \<or> is_upper c \<or> is_lower c \<or> c = CHR ''_'')"

text \<open>
  \<^verbatim>\<open>\s\<close> and \<^verbatim>\<open>trim()\<close> use the ECMAScript white space and line terminator code points;
  those below 256 are TAB, LF, VT, FF, CR, SPACE and the no-break space U+00A0.
\<close>

definition is_space :: "char \<Rightarrow> bool" where
  "is_space c = (in_range 9 13 c \<or> code c = 32 \<or> code c = 160)"

definition trim :: "string \<Rightarrow> string" where
  "trim s = rev (dropWhile is_space (rev (dropWhile is_space s)))"

text \<open>
  \<^verbatim>\<open>toLowerCase()\<close> on code units below 256: \<^verbatim>\<open>A-Z\<close> and the Latin-1 capitals U+00C0 to
  U+00DE (without the multiplication sign U+00D7) move up by 32; every other code unit
  is unchanged.
\<close>

definition lower_char :: "char \<Rightarrow> char" where
  "lower_char c =
     (if is_upper c \<or> (in_range 192 222 c \<and> code c \<noteq> 215) then char_of (code c + 32) else c)"

definition toLowerCase :: "string \<Rightarrow> string" where
  "toLowerCase s = map lower_char s"

text \<open>
  Under the \<^verbatim>\<open>i\<close> flag (without \<^verbatim>\<open>u\<close>) a pattern character and an input code unit match
  when their canonical forms agree; for an ASCII pattern character that is equality up to
  the case of \<^verbatim>\<open>A-Z\<close>, since no code unit above 127 canonicalises into ASCII.
\<close>

definition upper_ascii :: "char \<Rightarrow> char" where
  "upper_ascii c = (if is_lower c then char_of (code c - 32) else c)"

definition char_eq :: "bool \<Rightarrow> char \<Rightarrow> char \<Rightarrow> bool" where
  "char_eq ci p c = (if ci then upper_ascii p = upper_ascii c else p = c)"

text \<open>
  The fragment of regular expressions the patterns of the noise filter use. \<open>Str\<close> is a
  literal sequence of characters, \<open>Cls\<close> a character class given by its members (\<^verbatim>\<open>\d\<close>,
  \<^verbatim>\<open>\s\<close> or a character), \<open>Bol\<close> and \<open>Eol\<close> are \<^verbatim>\<open>^\<close> and \<^verbatim>\<open>$\<close> (no \<^verbatim>\<open>m\<close> flag), \<open>WordB\<close> is
  \<^verbatim>\<open>\b\<close>, \<open>Fail\<close> matches nothing.
\<close>

datatype cls = CDigit | CSpace | CChar char

datatype rx =
    Fail
  | Str string
  | Cls "cls list"
  | Seq rx rx
  | Alt rx rx
  | Opt rx
  | Star rx
  | Plus rx
  | Bol
  | Eol
  | WordB

fun in_cls :: "bool \<Rightarrow> cls \<Rightarrow> char \<Rightarrow> bool" where
  "in_cls ci CDigit c = is_digit c"
| "in_cls ci CSpace c = is_space c"
| "in_cls ci (CChar p) c = char_eq ci p c"

definition str_at :: "bool \<Rightarrow> string \<Rightarrow> string \<Rightarrow> nat \<Rightarrow> bool" where
  "str_at ci w s i =
     (i + length w \<le> length s \<and> list_all2 (char_eq ci) w (take (length w) (drop i s)))"

definition word_boundary :: "string \<Rightarrow> nat \<Rightarrow> bool" where
  "word_boundary s i =
     ((0 < i \<and> is_word (s ! (i - 1))) \<noteq> (i < length s \<and> is_word (s ! i)))"

text \<open>
  \<open>closure n f ps\<close>: the positions reached from \<open>ps\<close> by at most \<open>n\<close> rounds of \<open>f\<close>. A
  repetition only keeps iterations that consume input, so from position \<open>i\<close> of \<open>s\<close> at
  most \<open>length s - i\<close> rounds add anything.
\<close>

fun closure :: "nat \<Rightarrow> (nat \<Rightarrow> nat list) \<Rightarrow> nat list \<Rightarrow> nat list" where
  "closure 0 f ps = ps"
| "closure (Suc n) f ps =
     (if ps = [] then [] else ps @ closure n f (remdups (concat (map f ps))))"

text \<open>
  \<open>rmatch ci r s i\<close>: the positions at which a match of \<open>r\<close> that starts at position \<open>i\<close>
  of \<open>s\<close> can end. \<^verbatim>\<open>test\<close> asks whether some match exists, at any start position, so the
  order in which alternatives are tried does not matter.
\<close>

fun rmatch :: "bool \<Rightarrow> rx \<Rightarrow> string \<Rightarrow> nat \<Rightarrow> nat list" where
  "rmatch ci Fail s i = []"
| "rmatch ci (Str w) s i = (if str_at ci w s i then [i + length w] else [])"
| "rmatch ci (Cls cs) s i =
     (if i < length s \<and> list_ex (\<lambda>k. in_cls ci k (s ! i)) cs then [Suc i] else [])"
| "rmatch ci (Seq r1 r2) s i = concat (map (rmatch ci r2 s) (rmatch ci r1 s i))"
| "rmatch ci (Alt r1 r2) s i = rmatch ci r1 s i @ rmatch ci r2 s i"
| "rmatch ci (Opt r) s i = i # rmatch ci r s i"
| "rmatch ci (Star r) s i =
     closure (length s - i) (\<lambda>j. filter (\<lambda>k. j < k) (rmatch ci r s j)) [i]"
| "rmatch ci (Plus r) s i =
     closure (length s - i) (\<lambda>j. filter (\<lambda>k. j < k) (rmatch ci r s j)) (rmatch ci r s i)"
| "rmatch ci Bol s i = (if i = 0 then [i] else [])"
| "rmatch ci Eol s i = (if i = length s then [i] else [])"
| "rmatch ci WordB s i = (if word_boundary s i then [i] else [])"

definition rx_test :: "bool \<Rightarrow> rx \<Rightarrow> string \<Rightarrow> bool" where
  "rx_test ci r s = list_ex (\<lambda>i. rmatch ci r s i \<noteq> []) [0..<Suc (length s)]"

definition seqs :: "rx list \<Rightarrow> rx" where
  "seqs rs = foldr Seq rs (Str [])"

definition any_of :: "string list \<Rightarrow> rx" where
  "any_of ws = foldr (\<lambda>w r. Alt (Str w) r) ws Fail"

text \<open>\<^verbatim>\<open>Array.from(new Set(xs))\<close>: the first occurrence of every element, in order.\<close>

fun uniq_from :: "'a list \<Rightarrow> 'a list \<Rightarrow> 'a list" where
  "uniq_from seen [] = []"
| "uniq_from seen (x # xs) =
     (if x \<in> set seen then uniq_from seen xs else x # uniq_from (x # seen) xs)"

section \<open>Noise filter and deduplication of specification candidates\<close>

text \<open>
  \<^verbatim>\<open>
  const CSS_PROP_RX = /^(width|height|max-|min-|margin|padding|left|right|top|bottom|display|
    position|z-index|background|color|font|line-height|letter-spacing|border|box-shadow|
    opacity|transform|transition|animation|overflow|grid|flex|align|justify|gap|object-fit|
    text|white-space|word|clip|visibility)$/i;
  const CSS_VALUE_RX = /\b\d+(\.\d+)?(px|%|vw|vh|rem|em)\b|calc\(|!important|^var\(/i;
  const MEASURE_RX = /\b\d+(\.\d+)?\s*(in(?:ches)?|cm|mm|ft|feet)\b|[""]/i;
  \<close>
  (the first pattern is one line in the source).
\<close>

definition CSS_PROP_RX :: rx where
  "CSS_PROP_RX =
     seqs [Bol,
       any_of [''width'', ''height'', ''max-'', ''min-'', ''margin'', ''padding'', ''left'',
         ''right'', ''top'', ''bottom'', ''display'', ''position'', ''z-index'', ''background'',
         ''color'', ''font'', ''line-height'', ''letter-spacing'', ''border'', ''box-shadow'',
         ''opacity'', ''transform'', ''transition'', ''animation'', ''overflow'', ''grid'',
         ''flex'', ''align'', ''justify'', ''gap'', ''object-fit'', ''text'', ''white-space'',
         ''word'', ''clip'', ''visibility''],
       Eol]"

definition number_rx :: rx where
  "number_rx = seqs [Plus (Cls [CDigit]), Opt (seqs [Str ''.'', Plus (Cls [CDigit])])]"

definition CSS_VALUE_RX :: rx where
  "CSS_VALUE_RX =
     Alt (seqs [WordB, number_rx, any_of [''px'', ''%'', ''vw'', ''vh'', ''rem'', ''em''], WordB])
    (Alt (Str ''calc('')
    (Alt (Str ''!important'')
         (seqs [Bol, Str ''var(''])))"

definition MEASURE_RX :: rx where
  "MEASURE_RX =
     Alt (seqs [WordB, number_rx, Star (Cls [CSpace]),
                any_of [''in'', ''inches'', ''cm'', ''mm'', ''ft'', ''feet''], WordB])
         (Cls [CChar (CHR 0x22), CChar (CHR 0x22)])"

definition WIDTH_HEIGHT_RX :: rx where
  "WIDTH_HEIGHT_RX = Alt (seqs [Bol, Str ''width'', Eol]) (seqs [Bol, Str ''height'', Eol])"

record kv =
  key :: string
  val :: string

text \<open>
  \<^verbatim>\<open>
  function isLikelyCssPair(kv) {
    const key = (kv.key || "").trim();
    const val = (kv.value || "").trim();
    if (MEASURE_RX.test(val)) return false;
    if (CSS_PROP_RX.test(key)) return true;
    if ((/^width$|^height$/i.test(key)) && CSS_VALUE_RX.test(val)) return true;
    if (CSS_VALUE_RX.test(val)) return true;
    return false;
  }
  function filterOutCssPairs(arr = []) {
    return (arr || []).filter(kv => !isLikelyCssPair(kv));
  }
  \<close>
  The field \<^verbatim>\<open>value\<close> of a candidate is \<open>val\<close> here. \<^verbatim>\<open>in(?:ches)?\<close> is written as the two
  alternatives \<^verbatim>\<open>in\<close> and \<^verbatim>\<open>inches\<close>.
\<close>

definition isLikelyCssPair :: "kv \<Rightarrow> bool" where
  "isLikelyCssPair e =
     (let k = trim (key e); v = trim (val e) in
      if rx_test True MEASURE_RX v then False
      else if rx_test True CSS_PROP_RX k then True
      else if rx_test True WIDTH_HEIGHT_RX k \<and> rx_test True CSS_VALUE_RX v then True
      else if rx_test True CSS_VALUE_RX v then True
      else False)"

definition filterOutCssPairs :: "kv list \<Rightarrow> kv list" where
  "filterOutCssPairs arr = filter (\<lambda>e. \<not> isLikelyCssPair e) arr"

text \<open>
  \<^verbatim>\<open>
  const dedupeKV = (arr) => {
    const seen = new Set();
    const out = [];
    for (const kv of arr) {
      if (!kv || !kv.key || !kv.value) continue;
      const sig = `${kv.key}=${kv.value}`.toLowerCase();
      if (!seen.has(sig)) { seen.add(sig); out.push(kv); }
    }
    return out;
  };
  \<close>
  Every element pushed to the candidate list is an object with string fields, so \<^verbatim>\<open>!kv\<close>
  never holds; \<^verbatim>\<open>!kv.key\<close> is the test for the empty string.
\<close>

definition sig_of :: "kv \<Rightarrow> string" where
  "sig_of e = toLowerCase (key e @ ''='' @ val e)"

fun dedupeKV_loop :: "string set \<Rightarrow> kv list \<Rightarrow> kv list \<Rightarrow> kv list" where
  "dedupeKV_loop seen out [] = out"
| "dedupeKV_loop seen out (e # arr) =
     (if key e = [] \<or> val e = [] then dedupeKV_loop seen out arr
      else if sig_of e \<in> seen then dedupeKV_loop seen out arr
      else dedupeKV_loop (insert (sig_of e) seen) (out @ [e]) arr)"

definition dedupeKV :: "kv list \<Rightarrow> kv list" where
  "dedupeKV arr = dedupeKV_loop {} [] arr"

text \<open>\<^verbatim>\<open>sections.specifications = filterOutCssPairs(dedupeKV(sections.specifications));\<close>\<close>

definition finalize_specifications :: "kv list \<Rightarrow> kv list" where
  "finalize_specifications cands = filterOutCssPairs (dedupeKV cands)"

text \<open>The pair of a candidate after case folding.\<close>

definition folded :: "kv \<Rightarrow> string \<times> string" where
  "folded e = (toLowerCase (key e), toLowerCase (val e))"

subsection \<open>Properties of the noise filter\<close>




lemma width_css_value_rejected: "isLikelyCssPair \<lparr>key = ''width'', val = ''24px''\<rparr>"
  by code_simp






subsection \<open>Properties of the deduplication\<close>

lemma toLowerCase_append: "toLowerCase (a @ b) = toLowerCase a @ toLowerCase b"
  by (simp add: toLowerCase_def)

lemma folded_sig: "folded a = folded b \<Longrightarrow> sig_of a = sig_of b"
  by (simp add: folded_def sig_of_def toLowerCase_def)

lemma distinct_map_coarser:
  assumes "distinct (map f xs)" "\<And>x y. g x = g y \<Longrightarrow> f x = f y"
  shows "distinct (map g xs)"
  using assms(1)
proof (induction xs)
  case Nil
  show ?case by simp
next
  case (Cons x xs)
  then have "f x \<notin> f ` set xs" "distinct (map g xs)" by auto
  moreover have "g x \<notin> g ` set xs"
  proof
    assume "g x \<in> g ` set xs"
    then obtain y where "y \<in> set xs" "g x = g y" by auto
    then have "f x = f y" using assms(2) by blast
    with \<open>y \<in> set xs\<close> \<open>f x \<notin> f ` set xs\<close> show False by auto
  qed
  ultimately show ?case by simp
qed

definition nonempty_kv :: "kv \<Rightarrow> bool" where
  "nonempty_kv e = (key e \<noteq> [] \<and> val e \<noteq> [])"

lemma dedupeKV_loop_inv:
  assumes "seen = set (map sig_of out)" "distinct (map sig_of out)" "list_all nonempty_kv out"
  shows "distinct (map sig_of (dedupeKV_loop seen out arr)) \<and>
         list_all nonempty_kv (dedupeKV_loop seen out arr)"
  using assms
proof (induction arr arbitrary: seen out)
  case Nil
  then show ?case by simp
next
  case (Cons e arr)
  show ?case
  proof (cases "key e = [] \<or> val e = [] \<or> sig_of e \<in> seen")
    case True
    then show ?thesis using Cons.IH[OF Cons.prems] by auto
  next
    case False
    then have step: "dedupeKV_loop seen out (e # arr) =
        dedupeKV_loop (insert (sig_of e) seen) (out @ [e]) arr" by simp
    have "insert (sig_of e) seen = set (map sig_of (out @ [e]))"
      using Cons.prems(1) by auto
    moreover have "distinct (map sig_of (out @ [e]))"
      using Cons.prems(1,2) False by auto
    moreover have "list_all nonempty_kv (out @ [e])"
      using Cons.prems(3) False by (auto simp: nonempty_kv_def list_all_iff)
    ultimately show ?thesis unfolding step by (rule Cons.IH)
  qed
qed

lemma dedupeKV_props:
  "distinct (map sig_of (dedupeKV arr)) \<and> list_all nonempty_kv (dedupeKV arr)"
  unfolding dedupeKV_def by (rule dedupeKV_loop_inv) simp_all

lemma finalize_specifications_props:
  "distinct (map folded (finalize_specifications cands)) \<and>
   list_all nonempty_kv (finalize_specifications cands)"
proof -
  have "distinct (map sig_of (finalize_specifications cands))"
    unfolding finalize_specifications_def filterOutCssPairs_def
    using dedupeKV_props by (simp add: distinct_map_filter)
  then have "distinct (map folded (finalize_specifications cands))"
    by (rule distinct_map_coarser) (rule folded_sig)
  moreover have "list_all nonempty_kv (finalize_specifications cands)"
    unfolding finalize_specifications_def filterOutCssPairs_def
    using dedupeKV_props[of cands] by (simp add: list_all_iff)
  ultimately show ?thesis by simp
qed

lemma capacity_example:
  "dedupeKV [\<lparr>key = ''Capacity'', val = ''2 Person''\<rparr>, \<lparr>key = ''capacity'', val = ''2 person''\<rparr>] =
     [\<lparr>key = ''Capacity'', val = ''2 Person''\<rparr>] \<and>
   finalize_specifications
     [\<lparr>key = ''Capacity'', val = ''2 Person''\<rparr>, \<lparr>key = ''capacity'', val = ''2 person''\<rparr>] =
     [\<lparr>key = ''Capacity'', val = ''2 Person''\<rparr>]"
  by code_simp

section \<open>The fetcher (fetchProductUltra)\<close>

text \<open>
  The network is the environment. A request to a URL ends in one of three ways: the
  promise of \<^verbatim>\<open>fetch\<close> (or of reading the body) rejects (\<open>NetworkError\<close>), it never settles
  within the horizon considered (\<open>NoReply\<close>), or a response arrives with its \<^verbatim>\<open>ok\<close> flag
  (status 200 to 299) and its body. The answer may depend on every request made so far,
  so the same URL can be answered differently at different times.
\<close>

datatype http_result = NetworkError | NoReply | Response bool string

type_synonym network = "string list \<Rightarrow> string \<Rightarrow> http_result"

text \<open>
  A promise: fulfilled with a value, rejected with an error, or not settled. The errors:
  a rejected request (\<open>FetchFailed\<close>), the \<^verbatim>\<open>SyntaxError\<close> of \<^verbatim>\<open>JSON.parse\<close> or \<^verbatim>\<open>json()\<close>
  (\<open>InvalidJson\<close>), a \<^verbatim>\<open>TypeError\<close>, an error raised by the selector engine during the walk
  over the page (\<open>SelectorError\<close>), the timer of \<^verbatim>\<open>withTimeout\<close>, and the error of
  \<^verbatim>\<open>ingestHandleOnce\<close>.
\<close>

datatype error =
    FetchFailed
  | InvalidJson
  | TypeError
  | SelectorError
  | TimedOut string
  | NoProductFor handle

datatype 'a promise = Fulfilled 'a | Rejected error | Unsettled

text \<open>
  The variant feed \<^verbatim>\<open>/products/<handle>.js\<close> as parsed JSON. \<^verbatim>\<open>js?.vendor || null\<close> and
  \<^verbatim>\<open>v.sku || null\<close> turn a missing or empty string into \<^verbatim>\<open>null\<close>;
  \<^verbatim>\<open>Number(v.compare_at_price || 0)\<close> turns a missing price into 0. Prices are integer
  minor units. The fields \<^verbatim>\<open>id\<close> and \<^verbatim>\<open>title\<close> of a variant are \<open>var_id\<close> and \<open>var_title\<close>.
\<close>

record raw_variant =
  v_id :: int
  v_title :: string
  v_sku :: "string option"
  v_barcode :: "string option"
  v_available :: bool
  v_price :: int
  v_compare_at_price :: "int option"
  v_option1 :: "string option"
  v_option2 :: "string option"
  v_option3 :: "string option"
  v_weight :: int
  v_weight_unit :: string

text \<open>
  The field \<^verbatim>\<open>variants\<close> of the feed, as \<^verbatim>\<open>(js?.variants || []).map((v) => ({ id: v.id, ... }))\<close>
  sees it: missing, \<^verbatim>\<open>null\<close> or another falsy value (\<open>NoVariants\<close>, replaced by the empty
  array); a truthy value that is not an array (\<open>NotAnArray\<close>: it has no function \<^verbatim>\<open>map\<close>,
  and the call raises a \<^verbatim>\<open>TypeError\<close>); or an array, whose elements are objects read
  field by field, or \<^verbatim>\<open>null\<close> (\<open>None\<close>: reading \<^verbatim>\<open>v.id\<close> raises a \<^verbatim>\<open>TypeError\<close>). The \<^verbatim>\<open>map\<close>
  stands after the \<^verbatim>\<open>try\<close> block of the feed request, outside of it.
\<close>

datatype variants_field = NoVariants | NotAnArray | VariantArray "raw_variant option list"

record feed =
  f_vendor :: "string option"
  f_variants :: variants_field

record variant =
  var_id :: int
  var_title :: string
  sku :: "string option"
  barcode :: "string option"
  available :: bool
  price_cents :: int
  compare_at_price_cents :: int
  option1 :: "string option"
  option2 :: "string option"
  option3 :: "string option"
  weight :: int
  weight_unit :: string

definition or_null :: "string option \<Rightarrow> string option" where
  "or_null x = (case x of None \<Rightarrow> None | Some s \<Rightarrow> if s = [] then None else Some s)"

definition mk_variant :: "raw_variant \<Rightarrow> variant" where
  "mk_variant v =
     \<lparr>var_id = v_id v, var_title = v_title v, sku = or_null (v_sku v), barcode = or_null (v_barcode v),
      available = v_available v, price_cents = v_price v,
      compare_at_price_cents =
        (case v_compare_at_price v of None \<Rightarrow> 0 | Some c \<Rightarrow> c),
      option1 = v_option1 v, option2 = v_option2 v, option3 = v_option3 v,
      weight = v_weight v, weight_unit = v_weight_unit v\<rparr>"

fun mk_variants_array :: "raw_variant option list \<Rightarrow> error + variant list" where
  "mk_variants_array [] = Inr []"
| "mk_variants_array (None # vs) = Inl TypeError"
| "mk_variants_array (Some v # vs) =
     (case mk_variants_array vs of Inl e \<Rightarrow> Inl e | Inr out \<Rightarrow> Inr (mk_variant v # out))"

definition mk_variants :: "variants_field \<Rightarrow> error + variant list" where
  "mk_variants f =
     (case f of
        NoVariants \<Rightarrow> Inr []
      | NotAnArray \<Rightarrow> Inl TypeError
      | VariantArray vs \<Rightarrow> mk_variants_array vs)"

text \<open>
  What the walk over the parsed page collects before the final clean-up: the
  specification candidates in the order the passes push them, the texts pushed to the
  sections \<^verbatim>\<open>features\<close>, \<^verbatim>\<open>whats_included\<close>, \<^verbatim>\<open>warranty\<close>, \<^verbatim>\<open>shipping\<close> and \<^verbatim>\<open>returns\<close> (every
  element pushed there is a string), and the rest (product information, manuals), whose
  type \<open>'o\<close> is left open: its clean-up raises nothing.
\<close>

record 'o mined =
  m_specifications :: "kv list"
  m_features :: "string list"
  m_whats_included :: "string list"
  m_warranty :: "string list"
  m_shipping :: "string list"
  m_returns :: "string list"
  m_other :: 'o

text \<open>
  An element of a cleaned section: the text itself, or the value \<^verbatim>\<open>JSON.parse\<close> made of a
  text that starts with an opening brace (kept here by the text it was parsed from).
\<close>

datatype entry = Text string | Parsed string

text \<open>The sections of a product record.\<close>

record 'o sections =
  specifications :: "kv list"
  features :: "entry list"
  whats_included :: "entry list"
  warranty :: "entry list"
  shipping :: "entry list"
  returns :: "entry list"
  other_sections :: 'o

text \<open>
  The product record. The display fields derived from these (\<^verbatim>\<open>price_from\<close> in currency
  units, its formatted string, the lowercase haystack \<^verbatim>\<open>_hay_all\<close>) are not modelled.
\<close>

record 'o product =
  p_title :: string
  p_handle :: handle
  p_url :: string
  p_vendor :: "string option"
  p_price_from_cents :: "int option"
  p_variants :: "variant list"
  p_sections :: "'o sections"

text \<open>
  What the function takes from outside: the configured store domain, the network, the
  JSON parser of the feed (\<open>None\<close> when the body is not JSON and \<^verbatim>\<open>json()\<close> rejects), and
  the walk over the parsed HTML: \<open>page_title\<close> is the first non-empty of the \<^verbatim>\<open>og:title\<close>
  meta tag, the first heading and the \<^verbatim>\<open>title\<close> element (empty when there is none); \<open>mine\<close>
  is the walk that fills the sections, \<open>None\<close> when it raises (\<^verbatim>\<open>pullAccordionBlock\<close>
  builds the selector \<^verbatim>\<open>"#" + id\<close> from an \<^verbatim>\<open>aria-controls\<close> attribute of the page, and the
  selector engine raises on a string that is no selector). \<open>is_json s\<close> tells whether
  \<^verbatim>\<open>JSON.parse(s)\<close> returns, and \<open>joinable s\<close> whether the value parsed from \<open>s\<close> converts to
  a string (an object with an own property \<^verbatim>\<open>toString\<close> that is no function does not:
  \<^verbatim>\<open>join\<close> raises a \<^verbatim>\<open>TypeError\<close> on it).
\<close>

record 'o env =
  STORE_DOMAIN :: string
  net :: network
  parse_json :: "string \<Rightarrow> feed option"
  page_title :: "string \<Rightarrow> string"
  mine :: "string \<Rightarrow> 'o mined option"
  is_json :: "string \<Rightarrow> bool"
  joinable :: "string \<Rightarrow> bool"

definition product_url :: "'o env \<Rightarrow> handle \<Rightarrow> string" where
  "product_url E h = ''https://'' @ STORE_DOMAIN E @ ''/products/'' @ h"

text \<open>\<^verbatim>\<open>variants.length ? Math.min(...variants.map((v) => v.price_cents)) : null\<close>\<close>

definition priceFromCents :: "variant list \<Rightarrow> int option" where
  "priceFromCents vs =
     (case vs of [] \<Rightarrow> None | v # rest \<Rightarrow> Some (foldl min (price_cents v) (map price_cents rest)))"

text \<open>
  \<^verbatim>\<open>
  const dedupe = (arr) =>
    Array.from(new Set(arr.map((x) => (typeof x === "string" ? x.trim() : JSON.stringify(x)))))
      .map((s) => s.startsWith("{") ? JSON.parse(s) : s);
  \<close>
  Every element is a string, so the first \<^verbatim>\<open>map\<close> trims. The second \<^verbatim>\<open>map\<close> hands every
  text that starts with an opening brace to \<^verbatim>\<open>JSON.parse\<close>, which raises a \<^verbatim>\<open>SyntaxError\<close> when
  the text is not JSON; the call stands in no \<^verbatim>\<open>try\<close>.
\<close>

definition starts_with_brace :: "string \<Rightarrow> bool" where
  "starts_with_brace s = (take 1 s = ''{'')"

definition dedupe :: "'o env \<Rightarrow> string list \<Rightarrow> error + entry list" where
  "dedupe E arr =
     (let xs = uniq_from [] (map trim arr) in
      if list_ex (\<lambda>s. starts_with_brace s \<and> \<not> is_json E s) xs then Inl InvalidJson
      else Inr (map (\<lambda>s. if starts_with_brace s then Parsed s else Text s) xs))"

text \<open>
  \<^verbatim>\<open>
  sections.specifications = filterOutCssPairs(dedupeKV(sections.specifications));
  sections.features = dedupe(sections.features);
  sections.whats_included = dedupe(sections.whats_included);
  sections.warranty = dedupe(sections.warranty);
  sections.shipping = dedupe(sections.shipping);
  sections.returns = dedupe(sections.returns);
  sections.faq = [];
  const text_all = [title, ..., sections.features.join(" "), ..., sections.returns.join(" "),
                    ...].join(" ");
  \<close>
  \<open>join\<close> converts every element to a string.
\<close>

definition entry_joins :: "'o env \<Rightarrow> entry \<Rightarrow> bool" where
  "entry_joins E x = (case x of Text s \<Rightarrow> True | Parsed s \<Rightarrow> joinable E s)"

definition finalize_sections :: "'o env \<Rightarrow> 'o mined \<Rightarrow> error + 'o sections" where
  "finalize_sections E m =
     (case dedupe E (m_features m) of Inl e \<Rightarrow> Inl e | Inr fe \<Rightarrow>
      case dedupe E (m_whats_included m) of Inl e \<Rightarrow> Inl e | Inr wi \<Rightarrow>
      case dedupe E (m_warranty m) of Inl e \<Rightarrow> Inl e | Inr wa \<Rightarrow>
      case dedupe E (m_shipping m) of Inl e \<Rightarrow> Inl e | Inr sh \<Rightarrow>
      case dedupe E (m_returns m) of Inl e \<Rightarrow> Inl e | Inr re \<Rightarrow>
        if list_all (entry_joins E) (fe @ wi @ wa @ sh @ re)
        then Inr \<lparr>specifications = finalize_specifications (m_specifications m),
                  features = fe, whats_included = wi, warranty = wa, shipping = sh,
                  returns = re, other_sections = m_other m\<rparr>
        else Inl TypeError)"

text \<open>
  Everything the function does with the page alone, after the feed request: the walk,
  then the clean-up. None of it stands in a \<^verbatim>\<open>try\<close>.
\<close>

definition page_sections :: "'o env \<Rightarrow> string \<Rightarrow> error + 'o sections" where
  "page_sections E html =
     (case mine E html of None \<Rightarrow> Inl SelectorError | Some m \<Rightarrow> finalize_sections E m)"

text \<open>
  The rest of the function once the page has arrived and the feed request is over: \<open>js\<close>
  is the parsed feed, or \<open>None\<close> when the feed request failed
  (\<^verbatim>\<open>let js = null; try { ... } catch {}\<close>). The variants are built first, then the sections;
  the result is the record, or the error raised on the way.
\<close>

definition build_product ::
  "'o env \<Rightarrow> handle \<Rightarrow> string \<Rightarrow> feed option \<Rightarrow> error + 'o product" where
  "build_product E h html js =
     (let t = page_title E html;
          vendor = (case js of None \<Rightarrow> None | Some f \<Rightarrow> or_null (f_vendor f))
      in case mk_variants (case js of None \<Rightarrow> NoVariants | Some f \<Rightarrow> f_variants f) of
           Inl e \<Rightarrow> Inl e
         | Inr variants \<Rightarrow>
             (case page_sections E html of
                Inl e \<Rightarrow> Inl e
              | Inr secs \<Rightarrow>
                  Inr \<lparr>p_title = (if t \<noteq> [] then t else h),
                       p_handle = h,
                       p_url = product_url E h,
                       p_vendor = vendor,
                       p_price_from_cents = priceFromCents variants,
                       p_variants = variants,
                       p_sections = secs\<rparr>))"

text \<open>An \<^verbatim>\<open>async\<close> function that raises rejects its promise; one that returns fulfils it.\<close>

definition settled :: "error + 'a \<Rightarrow> 'a option promise" where
  "settled x = (case x of Inl e \<Rightarrow> Rejected e | Inr v \<Rightarrow> Fulfilled (Some v))"

text \<open>
  \<^verbatim>\<open>
  async function fetchProductUltra(handle) {
    const base = `https://${STORE_DOMAIN}/products/${handle}`;
    const res = await fetch(base);
    if (!res.ok) return null;
    const html = await res.text();
    ...
    let js = null;
    try { js = await (await fetch(`${base}.js`)).json(); } catch {}
    const vendor = js?.vendor || null;
    const variants = (js?.variants || []).map(...);
    ...
    return { title, handle, url: base, vendor, ..., variants, sections, ... };
  }
  \<close>
  The function takes the list of requests made so far and returns it extended. The page
  request is not inside any \<^verbatim>\<open>try\<close>: when it rejects, the function rejects. The feed
  request is inside \<^verbatim>\<open>try { } catch {}\<close>: a rejection of the request or of \<^verbatim>\<open>json()\<close>
  leaves \<^verbatim>\<open>js = null\<close>; the \<^verbatim>\<open>ok\<close> flag of the feed response is not looked at. Whatever is
  raised after that rejects the function.
\<close>

definition fetchProductUltra ::
  "'o env \<Rightarrow> string list \<Rightarrow> handle \<Rightarrow> 'o product option promise \<times> string list" where
  "fetchProductUltra E reqs h =
     (let base = product_url E h; reqs1 = reqs @ [base] in
      case net E reqs base of
        NetworkError \<Rightarrow> (Rejected FetchFailed, reqs1)
      | NoReply \<Rightarrow> (Unsettled, reqs1)
      | Response ok html \<Rightarrow>
          if \<not> ok then (Fulfilled None, reqs1)
          else
            (let feed_url = base @ ''.js''; reqs2 = reqs1 @ [feed_url] in
             case net E reqs1 feed_url of
               NetworkError \<Rightarrow> (settled (build_product E h html None), reqs2)
             | NoReply \<Rightarrow> (Unsettled, reqs2)
             | Response ok2 body \<Rightarrow>
                 (settled (build_product E h html (parse_json E body)), reqs2)))"

section \<open>Resolve-or-fetch and single-handle ingestion\<close>

text \<open>The state the functions share: the cache and the requests made so far.\<close>

record 'o world =
  cache :: "'o product jsmap"
  requests :: "string list"

text \<open>
  \<^verbatim>\<open>
  async function ensureProductByHandle(handle) {
    if (CACHE.has(handle)) return CACHE.get(handle);
    const prod = await fetchProductUltra(handle);
    if (prod) cacheSetLimited(handle, prod);
    return prod;
  }
  \<close>
  One call is modelled from start to end, with no other task changing the cache while
  the call waits for the network.
\<close>

definition ensureProductByHandle ::
  "'o env \<Rightarrow> 'o world \<Rightarrow> handle \<Rightarrow> 'o product option promise \<times> 'o world" where
  "ensureProductByHandle E w h =
     (if map_has (cache w) h then (Fulfilled (map_get (cache w) h), w)
      else
        (case fetchProductUltra E (requests w) h of
           (Fulfilled (Some pr), reqs) \<Rightarrow>
             (Fulfilled (Some pr), \<lparr>cache = cacheSetLimited (cache w) h pr, requests = reqs\<rparr>)
         | (r, reqs) \<Rightarrow> (r, w\<lparr>requests := reqs\<rparr>)))"

text \<open>
  \<^verbatim>\<open>
  function withTimeout(promise, ms, label = "task") {
    return new Promise((resolve, reject) => {
      const id = setTimeout(() => reject(new Error(`${label} timed out after ${ms}ms`)), ms);
      promise.then((v) => { clearTimeout(id); resolve(v); })
             .catch((e) => { clearTimeout(id); reject(e); });
    });
  }
  \<close>
  A promise that settles is passed on; one that does not settle is rejected by the timer.
  (A promise that settles only after the timer has fired is treated as not settling; what
  the abandoned operation does later is not modelled.)
\<close>

definition withTimeout :: "'a promise \<Rightarrow> string \<Rightarrow> 'a promise" where
  "withTimeout p label = (case p of Unsettled \<Rightarrow> Rejected (TimedOut label) | _ \<Rightarrow> p)"

text \<open>
  \<^verbatim>\<open>
  async function indexProduct(product) { return true; }

  async function ingestHandleOnce(handle) {
    const prod = await withTimeout(ensureProductByHandle(handle), INGEST_TIMEOUT_MS, `fetch ${handle}`);
    if (!prod) throw new Error(`No product for ${handle}`);
    cacheSetLimited(handle, prod);
    await withTimeout(indexProduct(prod), INGEST_TIMEOUT_MS, `index ${handle}`);
    return true;
  }
  \<close>
\<close>

definition indexProduct :: "'o product \<Rightarrow> bool promise" where
  "indexProduct pr = Fulfilled True"

definition ingestHandleOnce :: "'o env \<Rightarrow> 'o world \<Rightarrow> handle \<Rightarrow> bool promise \<times> 'o world" where
  "ingestHandleOnce E w h =
     (case ensureProductByHandle E w h of (r, w1) \<Rightarrow>
        (case withTimeout r (''fetch '' @ h) of
           Rejected e \<Rightarrow> (Rejected e, w1)
         | Unsettled \<Rightarrow> (Unsettled, w1)
         | Fulfilled None \<Rightarrow> (Rejected (NoProductFor h), w1)
         | Fulfilled (Some pr) \<Rightarrow>
             (let w2 = w1\<lparr>cache := cacheSetLimited (cache w1) h pr\<rparr>
              in (withTimeout (indexProduct pr) (''index '' @ h), w2))))"

text \<open>
  The number of page requests for a handle among the requests made, and what it means
  for two resolutions in a row to be idempotent in the sense of the specification: the
  same result both times, at most one page request in all, and a second resolution that
  changes nothing (a pure cache read).
\<close>

definition page_fetches :: "'o env \<Rightarrow> handle \<Rightarrow> string list \<Rightarrow> nat" where
  "page_fetches E h reqs = length (filter (\<lambda>u. u = product_url E h) reqs)"

definition resolve_twice_idempotent :: "'o env \<Rightarrow> 'o world \<Rightarrow> handle \<Rightarrow> bool" where
  "resolve_twice_idempotent E w h =
     (case ensureProductByHandle E w h of (r1, w1) \<Rightarrow>
      case ensureProductByHandle E w1 h of (r2, w2) \<Rightarrow>
        r2 = r1 \<and>
        page_fetches E h (requests w2) \<le> page_fetches E h (requests w) + 1 \<and>
        w2 = w1)"

subsection \<open>Sample environments\<close>

text \<open>
  A network given by a table from URL to result (any other URL answers with a non-2xx
  response), and an environment over it whose page title is the page text and whose
  walk finds the same two specification candidates, and the texts \<open>feats\<close> for the
  section \<^verbatim>\<open>features\<close>, on every page. No text parses as JSON.
\<close>

definition net_of :: "(string \<times> http_result) list \<Rightarrow> network" where
  "net_of tbl = (\<lambda>reqs u. case map_of tbl u of Some r \<Rightarrow> r | None \<Rightarrow> Response False [])"

definition sample_mined :: "string list \<Rightarrow> unit mined" where
  "sample_mined feats =
     \<lparr>m_specifications = [\<lparr>key = ''Capacity'', val = ''2 Person''\<rparr>,
                          \<lparr>key = ''capacity'', val = ''2 person''\<rparr>],
      m_features = feats, m_whats_included = [], m_warranty = [], m_shipping = [],
      m_returns = [], m_other = ()\<rparr>"

definition sample_env_with :: "string list \<Rightarrow> (string \<times> http_result) list \<Rightarrow> unit env" where
  "sample_env_with feats tbl =
     \<lparr>STORE_DOMAIN = ''shop.example'', net = net_of tbl, parse_json = (\<lambda>body. None),
      page_title = (\<lambda>html. html),
      mine = (\<lambda>html. Some (sample_mined feats)),
      is_json = (\<lambda>s. False), joinable = (\<lambda>s. True)\<rparr>"

definition sample_env :: "(string \<times> http_result) list \<Rightarrow> unit env" where
  "sample_env tbl = sample_env_with [] tbl"

definition empty_world :: "unit world" where
  "empty_world = \<lparr>cache = [], requests = []\<rparr>"

definition no_sections :: "unit sections" where
  "no_sections =
     \<lparr>specifications = [], features = [], whats_included = [], warranty = [], shipping = [],
      returns = [], other_sections = ()\<rparr>"

definition sample_product :: "nat \<Rightarrow> unit product" where
  "sample_product i =
     \<lparr>p_title = replicate (Suc i) CHR ''a'', p_handle = replicate (Suc i) CHR ''a'',
      p_url = [], p_vendor = None, p_price_from_cents = None, p_variants = [],
      p_sections = no_sections\<rparr>"

text \<open>The outcomes of the page request that the specification calls a failure, and the
  statement that a failed page request yields "no product".\<close>

definition page_failed :: "http_result \<Rightarrow> bool" where
  "page_failed r = (case r of NetworkError \<Rightarrow> True | NoReply \<Rightarrow> False | Response ok body \<Rightarrow> \<not> ok)"

definition no_product_on_page_failure :: "'o env \<Rightarrow> string list \<Rightarrow> handle \<Rightarrow> bool" where
  "no_product_on_page_failure E reqs h =
     (page_failed (net E reqs (product_url E h)) \<longrightarrow>
        fst (fetchProductUltra E reqs h) = Fulfilled None)"

text \<open>The feed request fails when it rejects or when its body is not JSON.\<close>

definition feed_failed :: "'o env \<Rightarrow> http_result \<Rightarrow> bool" where
  "feed_failed E r =
     (case r of NetworkError \<Rightarrow> True | NoReply \<Rightarrow> False | Response ok body \<Rightarrow> parse_json E body = None)"

text \<open>
  The record the function returns when the feed request has failed and the sections of
  the page are \<open>secs\<close>: no vendor, no price, no variants.
\<close>

definition record_without_feed :: "'o env \<Rightarrow> handle \<Rightarrow> string \<Rightarrow> 'o sections \<Rightarrow> 'o product" where
  "record_without_feed E h html secs =
     \<lparr>p_title = (if page_title E html \<noteq> [] then page_title E html else h),
      p_handle = h, p_url = product_url E h, p_vendor = None, p_price_from_cents = None,
      p_variants = [], p_sections = secs\<rparr>"

subsection \<open>Properties of the fetcher\<close>

lemma fetch_not_ok:
  "net E reqs (product_url E h) = Response False body \<Longrightarrow>
   fetchProductUltra E reqs h = (Fulfilled None, reqs @ [product_url E h])"
  by (simp add: fetchProductUltra_def Let_def)

lemma fetch_network_error:
  "net E reqs (product_url E h) = NetworkError \<Longrightarrow>
   fetchProductUltra E reqs h = (Rejected FetchFailed, reqs @ [product_url E h])"
  by (simp add: fetchProductUltra_def Let_def)

lemma build_product_no_feed:
  "build_product E h html None =
     (case page_sections E html of
        Inl e \<Rightarrow> Inl e
      | Inr secs \<Rightarrow> Inr (record_without_feed E h html secs))"
  by (simp add: build_product_def Let_def mk_variants_def record_without_feed_def priceFromCents_def
      split: sum.splits)

lemma fetch_feed_failed:
  assumes "net E reqs (product_url E h) = Response True html"
    and "feed_failed E (net E (reqs @ [product_url E h]) (product_url E h @ ''.js''))"
  shows "fst (fetchProductUltra E reqs h) =
           (case page_sections E html of
              Inl e \<Rightarrow> Rejected e
            | Inr secs \<Rightarrow> Fulfilled (Some (record_without_feed E h html secs)))"
  using assms
  by (auto simp: fetchProductUltra_def Let_def feed_failed_def build_product_no_feed settled_def
      split: http_result.splits sum.splits)

lemma fetch_requests:
  "snd (fetchProductUltra E reqs h) = reqs @ [product_url E h] \<or>
   snd (fetchProductUltra E reqs h) = reqs @ [product_url E h, product_url E h @ ''.js'']"
  by (auto simp: fetchProductUltra_def Let_def split: http_result.splits)

lemma fetch_no_product:
  assumes "fst (fetchProductUltra E reqs h) = Fulfilled None"
  shows "fetchProductUltra E reqs h = (Fulfilled None, reqs @ [product_url E h])"
  using assms
  by (auto simp: fetchProductUltra_def Let_def settled_def split: http_result.splits if_splits sum.splits)

lemma finalize_sections_specifications:
  "finalize_sections E m = Inr secs \<Longrightarrow>
   specifications secs = finalize_specifications (m_specifications m)"
  by (auto simp: finalize_sections_def split: sum.splits if_splits)

lemma build_product_specifications:
  assumes "build_product E h html js = Inr p"
  shows "\<exists>cands. specifications (p_sections p) = finalize_specifications cands"
proof -
  from assms obtain secs where ps: "page_sections E html = Inr secs" and p: "p_sections p = secs"
    by (auto simp: build_product_def Let_def split: sum.splits)
  from ps obtain m where "finalize_sections E m = Inr secs"
    by (auto simp: page_sections_def split: option.splits)
  from finalize_sections_specifications[OF this] p show ?thesis by auto
qed

lemma fetch_specifications:
  assumes "fst (fetchProductUltra E reqs h) = Fulfilled (Some p)"
  shows "\<exists>cands. specifications (p_sections p) = finalize_specifications cands"
proof -
  from assms obtain html js where "build_product E h html js = Inr p"
    by (auto simp: fetchProductUltra_def Let_def settled_def
        split: http_result.splits if_splits sum.splits)
  then show ?thesis by (rule build_product_specifications)
qed

text \<open>
  Claim C8. The finalized specifications list (the candidates after \<open>dedupeKV\<close> and the
  CSS filter) never holds two entries whose key and value agree after case folding, and
  never an entry with an empty key or an empty value; the candidates \<open>Capacity\<close> /
  \<open>2 Person\<close> and \<open>capacity\<close> / \<open>2 person\<close> collapse to the first of them. This holds of the
  specifications of every product record that \<open>fetchProductUltra\<close> returns.
\<close>

theorem specifications_deduped:
  "distinct (map folded (finalize_specifications cands)) \<and>
   list_all nonempty_kv (finalize_specifications cands) \<and>
   finalize_specifications
     [\<lparr>key = ''Capacity'', val = ''2 Person''\<rparr>, \<lparr>key = ''capacity'', val = ''2 person''\<rparr>] =
     [\<lparr>key = ''Capacity'', val = ''2 Person''\<rparr>] \<and>
   (fst (fetchProductUltra E reqs h) = Fulfilled (Some p) \<longrightarrow>
      distinct (map folded (specifications (p_sections p))) \<and>
      list_all nonempty_kv (specifications (p_sections p)))"
proof -
  have "distinct (map folded (specifications (p_sections p))) \<and>
      list_all nonempty_kv (specifications (p_sections p))"
    if "fst (fetchProductUltra E reqs h) = Fulfilled (Some p)"
  proof -
    from fetch_specifications[OF that] obtain found where
      "specifications (p_sections p) = finalize_specifications found" by blast
    then show ?thesis using finalize_specifications_props by simp
  qed
  then show ?thesis
    using finalize_specifications_props[of cands] capacity_example by blast
qed

definition s1_url :: string where
  "s1_url = ''https://shop.example/products/s1''"

definition s1_env :: "unit env" where
  "s1_env = sample_env [(s1_url, Response True ''Sauna One''), (s1_url @ ''.js'', NetworkError)]"

definition s1_product :: "unit product" where
  "s1_product =
     \<lparr>p_title = ''Sauna One'', p_handle = ''s1'', p_url = s1_url, p_vendor = None,
      p_price_from_cents = None, p_variants = [],
      p_sections = no_sections\<lparr>specifications := [\<lparr>key = ''Capacity'', val = ''2 Person''\<rparr>]\<rparr>\<rparr>"

lemma s1_fetch:
  "fetchProductUltra s1_env [] ''s1'' = (Fulfilled (Some s1_product), [s1_url, s1_url @ ''.js''])"
  by code_simp

theorem specifications_deduped_witness:
  "fst (fetchProductUltra s1_env [] ''s1'') = Fulfilled (Some s1_product) \<and>
   specifications (p_sections s1_product) = [\<lparr>key = ''Capacity'', val = ''2 Person''\<rparr>] \<and>
   distinct (map folded (specifications (p_sections s1_product))) \<and>
   list_all nonempty_kv (specifications (p_sections s1_product))"
proof -
  have f: "fst (fetchProductUltra s1_env [] ''s1'') = Fulfilled (Some s1_product)"
    by (simp add: s1_fetch)
  from specifications_deduped[of "[]" s1_env "[]" "''s1''" s1_product] f
  show ?thesis by (simp add: s1_product_def no_sections_def)
qed

text \<open>
  A page whose walk pushes, to the section \<^verbatim>\<open>features\<close>, a text that starts with an opening
  brace (a template placeholder left in the page): \<^verbatim>\<open>dedupe\<close> hands it to \<^verbatim>\<open>JSON.parse\<close>, which
  raises.
\<close>

definition brace_env :: "unit env" where
  "brace_env =
     sample_env_with [''{{ product.metafields.features }}'']
       [(s1_url, Response True ''Sauna One''), (s1_url @ ''.js'', NetworkError)]"

text \<open>
  Claim C3 (as stated): a failed page request, non-2xx or network error, yields
  "no product", and a failure of the feed request alone yields a record with an empty
  variant list. It fails for the network error on the page request: the function
  rejects. It also fails on the page of \<open>brace_env\<close>, where the page arrives, the feed
  request alone fails, and the function rejects in \<^verbatim>\<open>dedupe\<close> instead of returning a record.
\<close>

theorem fetch_failure_counterexample:
  "\<not> no_product_on_page_failure (sample_env [(s1_url, NetworkError)]) [] ''s1'' \<and>
   net brace_env [] (product_url brace_env ''s1'') = Response True ''Sauna One'' \<and>
   feed_failed brace_env
     (net brace_env [product_url brace_env ''s1''] (product_url brace_env ''s1'' @ ''.js'')) \<and>
   fetchProductUltra brace_env [] ''s1'' = (Rejected InvalidJson, [s1_url, s1_url @ ''.js''])"
  by code_simp

text \<open>
  Claim C3 (amended). A non-2xx response to the page request makes the fetch return
  "no product"; a network error on the page request makes the fetch reject (raise to its
  caller); when the page arrives and only the feed request fails (it rejects, or its body
  is not JSON), the failure of the feed does not abort the extraction: whenever the
  processing of the page itself completes, with sections \<open>secs\<close>, the fetch returns the
  record of the page with these sections, no vendor, no price and an empty variant list.
\<close>

theorem fetch_failure_outcomes:
  "(net E reqs (product_url E h) = Response False body \<longrightarrow>
      fst (fetchProductUltra E reqs h) = Fulfilled None) \<and>
   (net E reqs (product_url E h) = NetworkError \<longrightarrow>
      fst (fetchProductUltra E reqs h) = Rejected FetchFailed) \<and>
   (net E reqs (product_url E h) = Response True html \<and>
    feed_failed E (net E (reqs @ [product_url E h]) (product_url E h @ ''.js'')) \<and>
    page_sections E html = Inr secs \<longrightarrow>
      fst (fetchProductUltra E reqs h) = Fulfilled (Some (record_without_feed E h html secs)) \<and>
      p_variants (record_without_feed E h html secs) = [] \<and>
      p_vendor (record_without_feed E h html secs) = None \<and>
      p_price_from_cents (record_without_feed E h html secs) = None \<and>
      p_sections (record_without_feed E h html secs) = secs)"
  using fetch_not_ok[of E reqs h body] fetch_network_error[of E reqs h]
    fetch_feed_failed[of E reqs h html]
  by (simp add: record_without_feed_def)

theorem fetch_failure_outcomes_witness:
  "net (sample_env []) [] (product_url (sample_env []) ''s1'') = Response False [] \<and>
   fst (fetchProductUltra (sample_env []) [] ''s1'') = Fulfilled None \<and>
   net (sample_env [(s1_url, NetworkError)]) [] (product_url (sample_env [(s1_url, NetworkError)]) ''s1'')
     = NetworkError \<and>
   fst (fetchProductUltra (sample_env [(s1_url, NetworkError)]) [] ''s1'') = Rejected FetchFailed \<and>
   net s1_env [] (product_url s1_env ''s1'') = Response True ''Sauna One'' \<and>
   feed_failed s1_env (net s1_env ([] @ [product_url s1_env ''s1'']) (product_url s1_env ''s1'' @ ''.js'')) \<and>
   page_sections s1_env ''Sauna One'' = Inr (p_sections s1_product) \<and>
   fst (fetchProductUltra s1_env [] ''s1'') =
     Fulfilled (Some (record_without_feed s1_env ''s1'' ''Sauna One'' (p_sections s1_product))) \<and>
   record_without_feed s1_env ''s1'' ''Sauna One'' (p_sections s1_product) = s1_product \<and>
   p_variants s1_product = []"
proof -
  have a: "net (sample_env []) [] (product_url (sample_env []) ''s1'') = Response False []"
    by code_simp
  have b: "net (sample_env [(s1_url, NetworkError)]) []
      (product_url (sample_env [(s1_url, NetworkError)]) ''s1'') = NetworkError"
    by code_simp
  have c: "net s1_env [] (product_url s1_env ''s1'') = Response True ''Sauna One''"
    by code_simp
  have d: "feed_failed s1_env
      (net s1_env ([] @ [product_url s1_env ''s1'']) (product_url s1_env ''s1'' @ ''.js''))"
    by code_simp
  have e: "page_sections s1_env ''Sauna One'' = Inr (p_sections s1_product)"
    by code_simp
  have f: "record_without_feed s1_env ''s1'' ''Sauna One'' (p_sections s1_product) = s1_product"
    by code_simp
  have g: "p_variants s1_product = []" by (simp add: s1_product_def)
  note T1 = fetch_failure_outcomes[of "sample_env []" "[]" "''s1''" "[]"]
  note T2 = fetch_failure_outcomes[of "sample_env [(s1_url, NetworkError)]" "[]" "''s1''"]
  note T3 = fetch_failure_outcomes[of s1_env "[]" "''s1''" _ "''Sauna One''" "p_sections s1_product"]
  have h1: "fst (fetchProductUltra (sample_env []) [] ''s1'') = Fulfilled None"
    using T1 a by blast
  have h2: "fst (fetchProductUltra (sample_env [(s1_url, NetworkError)]) [] ''s1'') = Rejected FetchFailed"
    using T2 b by blast
  have h3: "fst (fetchProductUltra s1_env [] ''s1'') =
     Fulfilled (Some (record_without_feed s1_env ''s1'' ''Sauna One'' (p_sections s1_product)))"
    using T3 c d e by blast
  show ?thesis using a b c d e f g h1 h2 h3 by blast
qed

text \<open>
  A feed whose field \<^verbatim>\<open>variants\<close> is not an array: the \<^verbatim>\<open>map\<close> after the \<^verbatim>\<open>try\<close> block raises,
  and the function rejects although both requests were answered.
\<close>

lemma variants_not_an_array_rejects:
  "fst (fetchProductUltra
         (s1_env\<lparr>net := net_of [(s1_url, Response True ''Sauna One''), (s1_url @ ''.js'', Response True ''{}'')],
                 parse_json := (\<lambda>body. Some \<lparr>f_vendor = None, f_variants = NotAnArray\<rparr>)\<rparr>)
         [] ''s1'') = Rejected TypeError"
  by code_simp

subsection \<open>Properties of resolve-or-fetch\<close>

lemma map_has_map_set: "map_has (map_set m k v) k"
  by (simp add: map_has_def map_keys_map_set)

lemma map_has_cacheSetLimited: "map_has (cacheSetLimited c h p) h"
  by (simp add: cacheSetLimited_def cacheSetLimited_at_def Let_def map_has_map_set)

lemma map_get_cacheSetLimited: "map_get (cacheSetLimited c h p) h = Some p"
  by (simp add: cacheSetLimited_def cacheSetLimited_at_def Let_def map_get_map_set)

lemma map_has_get: "map_has m k \<Longrightarrow> \<exists>v. map_get m k = Some v"
  by (induction m) (auto simp: map_has_def map_keys_def map_get_def)

lemma ensure_hit:
  "map_has (cache w) h \<Longrightarrow> ensureProductByHandle E w h = (Fulfilled (map_get (cache w) h), w)"
  by (simp add: ensureProductByHandle_def)

lemma page_fetches_snoc:
  "page_fetches E h (reqs @ [u]) = page_fetches E h reqs + (if u = product_url E h then 1 else 0)"
  by (simp add: page_fetches_def)

lemma page_fetches_fetch:
  "page_fetches E h (snd (fetchProductUltra E reqs h)) = page_fetches E h reqs + 1"
proof -
  have "product_url E h @ ''.js'' \<noteq> product_url E h" by simp
  then show ?thesis
    using fetch_requests[of E reqs h] by (auto simp: page_fetches_def)
qed

lemma ensure_miss:
  assumes "\<not> map_has (cache w) h"
  shows "fst (ensureProductByHandle E w h) = fst (fetchProductUltra E (requests w) h) \<and>
         requests (snd (ensureProductByHandle E w h)) = snd (fetchProductUltra E (requests w) h)"
  using assms
  by (auto simp: ensureProductByHandle_def split: prod.splits promise.splits option.splits)

lemma ensure_miss_some:
  assumes "\<not> map_has (cache w) h"
    and "fst (ensureProductByHandle E w h) = Fulfilled (Some p)"
  shows "ensureProductByHandle E w h =
           (Fulfilled (Some p),
            \<lparr>cache = cacheSetLimited (cache w) h p,
             requests = snd (fetchProductUltra E (requests w) h)\<rparr>)"
  using assms
  by (auto simp: ensureProductByHandle_def split: prod.splits promise.splits option.splits)

lemma ensure_some_cached:
  assumes "fst (ensureProductByHandle E w h) = Fulfilled (Some p)"
  shows "map_has (cache (snd (ensureProductByHandle E w h))) h \<and>
         map_get (cache (snd (ensureProductByHandle E w h))) h = Some p \<and>
         page_fetches E h (requests (snd (ensureProductByHandle E w h)))
           \<le> page_fetches E h (requests w) + 1"
proof (cases "map_has (cache w) h")
  case True
  then show ?thesis using assms by (simp add: ensure_hit)
next
  case False
  from ensure_miss_some[OF False assms] show ?thesis
    by (simp add: map_has_cacheSetLimited map_get_cacheSetLimited page_fetches_fetch)
qed

text \<open>
  A resolution that yields "no product": the handle was not cached, the page request was
  made and answered with a non-2xx status, nothing else was requested, and the cache is
  as it was.
\<close>

lemma ensure_none:
  assumes "fst (ensureProductByHandle E w h) = Fulfilled None"
  shows "\<not> map_has (cache w) h \<and>
         ensureProductByHandle E w h = (Fulfilled None, w\<lparr>requests := requests w @ [product_url E h]\<rparr>)"
proof -
  have miss: "\<not> map_has (cache w) h"
  proof
    assume hit: "map_has (cache w) h"
    from map_has_get[OF hit] obtain v where "map_get (cache w) h = Some v" by blast
    with hit assms show False by (simp add: ensure_hit)
  qed
  from ensure_miss[OF miss, of E] assms
  have "fst (fetchProductUltra E (requests w) h) = Fulfilled None" by simp
  from fetch_no_product[OF this] miss show ?thesis
    by (simp add: ensureProductByHandle_def)
qed

text \<open>
  Claim C6 (as stated): for every handle, two resolutions in a row return the same
  record, make one page request at most, and the second is a pure cache read. It fails
  for a handle whose page answers with a non-2xx status: nothing is cached, and the
  second resolution fetches again.
\<close>

theorem resolve_twice_counterexample:
  "\<not> resolve_twice_idempotent (sample_env []) empty_world ''ghost''"
  by code_simp

text \<open>
  Claim C6 (amended). For every handle whose first resolution returns a product record
  (from the cache or from a successful fetch), the second resolution, with no eviction in
  between, returns the identical record, changes neither the cache nor the list of
  requests (a pure cache read), and the two resolutions together make at most one page
  request. A handle whose resolution yields no product is not cached: the cache is left
  as it was, and the next resolution requests the page again, so that two resolutions
  make two page requests.
\<close>

theorem resolve_twice_same_record:
  "(fst (ensureProductByHandle E w h) = Fulfilled (Some p) \<longrightarrow>
      resolve_twice_idempotent E w h \<and>
      ensureProductByHandle E (snd (ensureProductByHandle E w h)) h =
        (Fulfilled (Some p), snd (ensureProductByHandle E w h))) \<and>
   (fst (ensureProductByHandle E w h) = Fulfilled None \<longrightarrow>
      \<not> map_has (cache w) h \<and>
      cache (snd (ensureProductByHandle E w h)) = cache w \<and>
      \<not> map_has (cache (snd (ensureProductByHandle E w h))) h \<and>
      page_fetches E h (requests (snd (ensureProductByHandle E w h))) =
        page_fetches E h (requests w) + 1 \<and>
      page_fetches E h
          (requests (snd (ensureProductByHandle E (snd (ensureProductByHandle E w h)) h))) =
        page_fetches E h (requests w) + 2)"
proof -
  have some: "resolve_twice_idempotent E w h \<and>
      ensureProductByHandle E (snd (ensureProductByHandle E w h)) h =
        (Fulfilled (Some p), snd (ensureProductByHandle E w h))"
    if first: "fst (ensureProductByHandle E w h) = Fulfilled (Some p)"
  proof -
    obtain r1 w1 where e1: "ensureProductByHandle E w h = (r1, w1)"
      by (cases "ensureProductByHandle E w h")
    with first have r1: "r1 = Fulfilled (Some p)" by simp
    from ensure_some_cached[OF first] e1
    have c: "map_has (cache w1) h" "map_get (cache w1) h = Some p"
      "page_fetches E h (requests w1) \<le> page_fetches E h (requests w) + 1" by simp_all
    have e2: "ensureProductByHandle E w1 h = (Fulfilled (Some p), w1)"
      using c(1,2) by (simp add: ensure_hit)
    show ?thesis
      using e1 e2 r1 c(3) by (simp add: resolve_twice_idempotent_def)
  qed
  have none: "\<not> map_has (cache w) h \<and>
      cache (snd (ensureProductByHandle E w h)) = cache w \<and>
      \<not> map_has (cache (snd (ensureProductByHandle E w h))) h \<and>
      page_fetches E h (requests (snd (ensureProductByHandle E w h))) =
        page_fetches E h (requests w) + 1 \<and>
      page_fetches E h
          (requests (snd (ensureProductByHandle E (snd (ensureProductByHandle E w h)) h))) =
        page_fetches E h (requests w) + 2"
    if first: "fst (ensureProductByHandle E w h) = Fulfilled None"
  proof -
    let ?w1 = "w\<lparr>requests := requests w @ [product_url E h]\<rparr>"
    from ensure_none[OF first] have miss: "\<not> map_has (cache w) h"
      and e1: "ensureProductByHandle E w h = (Fulfilled None, ?w1)" by simp_all
    have miss1: "\<not> map_has (cache ?w1) h" using miss by simp
    have "requests (snd (ensureProductByHandle E ?w1 h)) =
        snd (fetchProductUltra E (requests ?w1) h)"
      using ensure_miss[OF miss1, of E] by simp
    then have "page_fetches E h (requests (snd (ensureProductByHandle E ?w1 h))) =
        page_fetches E h (requests ?w1) + 1"
      by (simp only: page_fetches_fetch)
    then show ?thesis using miss e1 by (simp add: page_fetches_snoc)
  qed
  show ?thesis using some none by blast
qed

lemma s1_ensure:
  "ensureProductByHandle s1_env empty_world ''s1'' =
     (Fulfilled (Some s1_product),
      \<lparr>cache = [(''s1'', s1_product)], requests = [s1_url, s1_url @ ''.js'']\<rparr>)"
  by code_simp

definition ghost_url :: string where
  "ghost_url = ''https://shop.example/products/ghost''"

lemma ghost_ensure:
  "ensureProductByHandle (sample_env []) empty_world ''ghost'' =
     (Fulfilled None, \<lparr>cache = [], requests = [ghost_url]\<rparr>)"
  "ensureProductByHandle (sample_env []) \<lparr>cache = [], requests = [ghost_url]\<rparr> ''ghost'' =
     (Fulfilled None, \<lparr>cache = [], requests = [ghost_url, ghost_url]\<rparr>)"
  by code_simp+

theorem resolve_twice_same_record_witness:
  "fst (ensureProductByHandle s1_env empty_world ''s1'') = Fulfilled (Some s1_product) \<and>
   resolve_twice_idempotent s1_env empty_world ''s1'' \<and>
   ensureProductByHandle s1_env
       \<lparr>cache = [(''s1'', s1_product)], requests = [s1_url, s1_url @ ''.js'']\<rparr> ''s1'' =
     (Fulfilled (Some s1_product),
      \<lparr>cache = [(''s1'', s1_product)], requests = [s1_url, s1_url @ ''.js'']\<rparr>) \<and>
   fst (ensureProductByHandle (sample_env []) empty_world ''ghost'') = Fulfilled None \<and>
   cache (snd (ensureProductByHandle (sample_env []) empty_world ''ghost'')) = cache empty_world \<and>
   \<not> map_has (cache (snd (ensureProductByHandle (sample_env []) empty_world ''ghost''))) ''ghost'' \<and>
   page_fetches (sample_env []) ''ghost'' (requests empty_world) = 0 \<and>
   page_fetches (sample_env []) ''ghost''
     (requests (snd (ensureProductByHandle (sample_env [])
        (snd (ensureProductByHandle (sample_env []) empty_world ''ghost'')) ''ghost''))) = 2"
proof -
  have f: "fst (ensureProductByHandle s1_env empty_world ''s1'') = Fulfilled (Some s1_product)"
    by (simp add: s1_ensure)
  have g: "fst (ensureProductByHandle (sample_env []) empty_world ''ghost'') = Fulfilled None"
    by (simp add: ghost_ensure)
  have z: "page_fetches (sample_env []) ''ghost'' (requests empty_world) = 0"
    by (simp add: page_fetches_def empty_world_def)
  note T1 = resolve_twice_same_record[of s1_env empty_world "''s1''" s1_product, THEN conjunct1]
  note T2 = resolve_twice_same_record[of "sample_env []" empty_world "''ghost''", THEN conjunct2]
  have a: "resolve_twice_idempotent s1_env empty_world ''s1'' \<and>
      ensureProductByHandle s1_env (snd (ensureProductByHandle s1_env empty_world ''s1'')) ''s1'' =
        (Fulfilled (Some s1_product), snd (ensureProductByHandle s1_env empty_world ''s1''))"
    using T1 f by blast
  have b: "cache (snd (ensureProductByHandle (sample_env []) empty_world ''ghost'')) = cache empty_world \<and>
      \<not> map_has (cache (snd (ensureProductByHandle (sample_env []) empty_world ''ghost''))) ''ghost'' \<and>
      page_fetches (sample_env []) ''ghost''
        (requests (snd (ensureProductByHandle (sample_env [])
           (snd (ensureProductByHandle (sample_env []) empty_world ''ghost'')) ''ghost''))) =
        page_fetches (sample_env []) ''ghost'' (requests empty_world) + 2"
    using T2 g by blast
  have c: "\<not> map_has (cache empty_world) ''ghost''"
    by (simp add: map_has_def map_keys_def empty_world_def)
  show ?thesis using f g z a b c by (simp add: s1_ensure)
qed

subsection \<open>Overwriting at capacity\<close>

lemma first_key_cons: "map_first_key c = Some k \<Longrightarrow> \<exists>v m. c = (k, v) # m"
  by (cases c) (auto simp: map_first_key_def)

lemma cacheSetLimited_full_delete:
  assumes "cache_wf c" "CACHE_LIMIT \<le> length c" "map_first_key c = Some oldest"
  shows "cacheSetLimited c h pr = map_set (map_delete c oldest) h pr"
    and "map_delete c oldest = tl c"
    and "map_has c oldest"
    and "\<not> map_has (tl c) oldest"
proof -
  from first_key_cons[OF assms(3)] obtain v m where c: "c = (oldest, v) # m" by blast
  have d: "distinct (map_keys ((oldest, v) # m))" using assms(1) c by (simp add: cache_wf_def)
  have del: "map_delete c oldest = m" using map_delete_first[OF d] c by simp
  have pos: "0 < CACHE_LIMIT" by (simp add: CACHE_LIMIT_def)
  show "map_delete c oldest = tl c" using del c by simp
  show "cacheSetLimited c h pr = map_set (map_delete c oldest) h pr"
    using cacheSetLimited_at_full[OF assms(1,2) pos] del c by (simp add: cacheSetLimited_def)
  show "map_has c oldest" using c by (simp add: map_has_def map_keys_def)
  show "\<not> map_has (tl c) oldest" using d c by (simp add: map_has_def map_keys_def)
qed

lemma overwrite_full:
  assumes "cache_wf c" "CACHE_LIMIT \<le> length c" "map_first_key c = Some oldest"
    and "map_has c h" "h \<noteq> oldest"
  shows "\<not> map_has (cacheSetLimited c h pr) oldest \<and>
         length (cacheSetLimited c h pr) = length c - 1 \<and>
         map_get (cacheSetLimited c h pr) h = Some pr"
proof -
  note F = cacheSetLimited_full_delete[OF assms(1,2,3)]
  have eq: "cacheSetLimited c h pr = map_set (tl c) h pr" using F(1,2) by simp
  have hin: "h \<in> set (map_keys (tl c))"
    using assms(3,4,5) by (cases c) (auto simp: map_has_def map_keys_def map_first_key_def)
  have "map_keys (cacheSetLimited c h pr) = map_keys (tl c)"
    unfolding eq using hin by (simp add: map_keys_map_set)
  then have "\<not> map_has (cacheSetLimited c h pr) oldest"
    using F(4) by (simp add: map_has_def)
  moreover have "length (cacheSetLimited c h pr) = length c - 1"
    unfolding eq using hin by (simp add: length_map_set)
  ultimately show ?thesis by (simp add: map_get_cacheSetLimited)
qed

lemma ingest_hit:
  assumes "map_get c h = Some p'" "map_has c h"
  shows "ingestHandleOnce E \<lparr>cache = c, requests = reqs\<rparr> h =
           (Fulfilled True, \<lparr>cache = cacheSetLimited c h p', requests = reqs\<rparr>)"
  using assms
  by (simp add: ingestHandleOnce_def ensure_hit withTimeout_def indexProduct_def)

text \<open>
  Writes to a full cache without an empty key. When the cache holds at least
  \<open>CACHE_LIMIT\<close> entries, a cache write deletes the oldest-inserted entry and then sets the
  new value, also when the handle written is already in the cache. Overwriting a cached
  handle other than the oldest therefore removes the oldest record and leaves the cache
  one entry smaller; this is what \<open>ingestHandleOnce\<close> does on a cache hit: no request is
  made, and the oldest record is evicted.
\<close>

lemma overwrite_evicts_nonempty_oldest:
  assumes "cache_wf c" "CACHE_LIMIT \<le> length c" "map_first_key c = Some oldest"
  shows "cacheSetLimited c h pr = map_set (map_delete c oldest) h pr \<and>
         map_has c oldest \<and>
         (map_has c h \<and> h \<noteq> oldest \<longrightarrow>
            \<not> map_has (cacheSetLimited c h pr) oldest \<and>
            length (cacheSetLimited c h pr) = length c - 1 \<and>
            map_get (cacheSetLimited c h pr) h = Some pr \<and>
            fst (ingestHandleOnce E \<lparr>cache = c, requests = reqs\<rparr> h) = Fulfilled True \<and>
            requests (snd (ingestHandleOnce E \<lparr>cache = c, requests = reqs\<rparr> h)) = reqs \<and>
            \<not> map_has (cache (snd (ingestHandleOnce E \<lparr>cache = c, requests = reqs\<rparr> h))) oldest \<and>
            length (cache (snd (ingestHandleOnce E \<lparr>cache = c, requests = reqs\<rparr> h))) = length c - 1)"
proof -
  note F = cacheSetLimited_full_delete[OF assms]
  have "fst (ingestHandleOnce E \<lparr>cache = c, requests = reqs\<rparr> h) = Fulfilled True \<and>
        requests (snd (ingestHandleOnce E \<lparr>cache = c, requests = reqs\<rparr> h)) = reqs \<and>
        \<not> map_has (cache (snd (ingestHandleOnce E \<lparr>cache = c, requests = reqs\<rparr> h))) oldest \<and>
        length (cache (snd (ingestHandleOnce E \<lparr>cache = c, requests = reqs\<rparr> h))) = length c - 1"
    if h: "map_has c h" "h \<noteq> oldest"
  proof -
    from map_has_get[OF h(1)] obtain p' where g: "map_get c h = Some p'" by blast
    show ?thesis
      using ingest_hit[OF g h(1), of E reqs] overwrite_full[OF assms h, of p'] by simp
  qed
  then show ?thesis
    using F(1,3) overwrite_full[OF assms, of h pr] by blast
qed

definition full_cache :: "unit product jsmap" where
  "full_cache = sample_entries sample_product 1000"

lemma full_cache_facts:
  "cache_wf full_cache" "CACHE_LIMIT \<le> length full_cache"
  "map_first_key full_cache = Some ''a''" "map_has full_cache ''aa''"
proof -
  show "cache_wf full_cache"
    using sample_entries_keys[of sample_product 1000]
    by (simp add: cache_wf_def map_keys_def full_cache_def)
  show "CACHE_LIMIT \<le> length full_cache"
    by (simp add: full_cache_def sample_entries_def CACHE_LIMIT_def)
  show "map_first_key full_cache = Some ''a''"
    by (simp add: full_cache_def sample_entries_def map_first_key_def upt_conv_Cons[of 0 1000])
  have "''aa'' = replicate (Suc 1) CHR ''a''" by simp
  then show "map_has full_cache ''aa''"
    unfolding map_has_def map_keys_def full_cache_def sample_entries_def
    by (auto simp: image_iff intro!: bexI[where x=1])
qed

lemma overwrite_evicts_nonempty_oldest_example:
  "cache_wf full_cache \<and> CACHE_LIMIT \<le> length full_cache \<and>
   map_first_key full_cache = Some ''a'' \<and> map_has full_cache ''aa'' \<and> ''aa'' \<noteq> ''a'' \<and>
   map_has full_cache ''a'' \<and>
   \<not> map_has (cacheSetLimited full_cache ''aa'' (sample_product 7)) ''a'' \<and>
   length (cacheSetLimited full_cache ''aa'' (sample_product 7)) = 999 \<and>
   fst (ingestHandleOnce (sample_env []) \<lparr>cache = full_cache, requests = []\<rparr> ''aa'') = Fulfilled True \<and>
   \<not> map_has (cache (snd (ingestHandleOnce (sample_env []) \<lparr>cache = full_cache, requests = []\<rparr> ''aa''))) ''a''"
proof -
  have len: "length full_cache = 1000" by (simp add: full_cache_def sample_entries_def)
  have ne: "''aa'' \<noteq> ''a''" by simp
  from overwrite_evicts_nonempty_oldest[OF full_cache_facts(1,2,3),
      of "''aa''" "sample_product 7" "sample_env []" "[]", THEN conjunct2]
  show ?thesis using full_cache_facts ne len by simp
qed

text \<open>
  The part of \<^verbatim>\<open>ensureProductByHandle\<close> that runs when the fetch has settled with \<open>r\<close>:
  \<^verbatim>\<open>if (prod) cacheSetLimited(handle, prod);\<close>. It does not look at the cache again, so
  when two resolutions of one handle overlap (both find the handle missing, both fetch),
  the one that ends last writes to a cache that already holds the handle. That write,
  and the one \<open>ingestHandleOnce\<close> makes after every resolution, are the overwrites of the
  program.
\<close>

definition ensure_finish :: "'o world \<Rightarrow> handle \<Rightarrow> 'o product option \<Rightarrow> 'o world" where
  "ensure_finish w h r =
     (case r of None \<Rightarrow> w | Some pr \<Rightarrow> w\<lparr>cache := cacheSetLimited (cache w) h pr\<rparr>)"

lemma ensure_miss_finish:
  assumes "\<not> map_has (cache w) h" "fst (fetchProductUltra E (requests w) h) = Fulfilled r"
  shows "ensureProductByHandle E w h =
           (Fulfilled r, ensure_finish (w\<lparr>requests := snd (fetchProductUltra E (requests w) h)\<rparr>) h r)"
  using assms
  by (auto simp: ensureProductByHandle_def ensure_finish_def split: prod.splits option.splits)

lemma overlapping_resolutions_overwrite:
  "cache (ensure_finish (ensure_finish w h (Some p1)) h (Some p2)) =
     cacheSetLimited (cacheSetLimited (cache w) h p1) h p2 \<and>
   map_has (cache (ensure_finish w h (Some p1))) h"
  by (simp add: ensure_finish_def map_has_cacheSetLimited)

text \<open>
  A full cache whose oldest entry has the empty handle: the entries of
  \<open>empty_handle_first\<close>, with product records as values, one short of 1001.
\<close>

definition full_cache_empty_oldest :: "unit product jsmap" where
  "full_cache_empty_oldest = ([], sample_product 0) # sample_entries sample_product 999"

lemma cacheSetLimited_empty_first:
  "map_first_key c = Some [] \<Longrightarrow> cacheSetLimited c h p = map_set c h p"
  by (simp add: cacheSetLimited_def cacheSetLimited_at_def)

lemma full_cache_empty_oldest_facts:
  "length full_cache_empty_oldest = 1000"
  "distinct (map_keys full_cache_empty_oldest)"
  "map_first_key full_cache_empty_oldest = Some []"
  "map_has full_cache_empty_oldest ''aa''"
  "map_has full_cache_empty_oldest []"
proof -
  show "length full_cache_empty_oldest = 1000"
    by (simp add: full_cache_empty_oldest_def sample_entries_def)
  show "distinct (map_keys full_cache_empty_oldest)"
    using sample_entries_keys[of sample_product 999]
    by (auto simp: full_cache_empty_oldest_def map_keys_def)
  show "map_first_key full_cache_empty_oldest = Some []"
    by (simp add: full_cache_empty_oldest_def map_first_key_def)
  have "''aa'' = replicate (Suc 1) CHR ''a''" by simp
  then show "map_has full_cache_empty_oldest ''aa''"
    unfolding map_has_def map_keys_def full_cache_empty_oldest_def sample_entries_def
    by (auto simp: image_iff intro!: bexI[where x=1])
  show "map_has full_cache_empty_oldest []"
    by (simp add: map_has_def map_keys_def full_cache_empty_oldest_def)
qed

text \<open>
  Claim C10 states that whenever the cache holds at least its capacity of entries, a
  cache write deletes the oldest-inserted entry before it sets the new value, also when
  the handle written is already cached, so that overwriting at capacity evicts an
  unrelated record. The program does so when the oldest key is a non-empty string
  (\<open>overwrite_evicts_nonempty_oldest\<close>). When the oldest key is the empty string it
  deletes nothing: the overwrite of the cached handle \<open>aa\<close> in the full cache
  \<open>full_cache_empty_oldest\<close> is a plain \<^verbatim>\<open>set\<close>, the oldest entry is still there, the keys and
  the size are as before; so is the cache after \<open>ingestHandleOnce\<close> on that handle.
\<close>

theorem overwrite_behind_empty_key_evicts_nothing:
  "CACHE_LIMIT \<le> length full_cache_empty_oldest \<and>
   map_first_key full_cache_empty_oldest = Some [] \<and>
   map_has full_cache_empty_oldest ''aa'' \<and>
   cacheSetLimited full_cache_empty_oldest ''aa'' (sample_product 7) =
     map_set full_cache_empty_oldest ''aa'' (sample_product 7) \<and>
   map_has (cacheSetLimited full_cache_empty_oldest ''aa'' (sample_product 7)) [] \<and>
   map_keys (cacheSetLimited full_cache_empty_oldest ''aa'' (sample_product 7)) =
     map_keys full_cache_empty_oldest \<and>
   length (cacheSetLimited full_cache_empty_oldest ''aa'' (sample_product 7)) = 1000 \<and>
   fst (ingestHandleOnce (sample_env []) \<lparr>cache = full_cache_empty_oldest, requests = []\<rparr> ''aa'') =
     Fulfilled True \<and>
   map_keys (cache (snd (ingestHandleOnce (sample_env [])
       \<lparr>cache = full_cache_empty_oldest, requests = []\<rparr> ''aa''))) =
     map_keys full_cache_empty_oldest"
proof -
  note F = full_cache_empty_oldest_facts
  have w: "cacheSetLimited full_cache_empty_oldest ''aa'' q = map_set full_cache_empty_oldest ''aa'' q"
    for q using F(3) by (rule cacheSetLimited_empty_first)
  have k: "map_keys (cacheSetLimited full_cache_empty_oldest ''aa'' q) = map_keys full_cache_empty_oldest"
    for q using F(4) by (simp add: w map_keys_map_set map_has_def)
  have h: "map_has (cacheSetLimited full_cache_empty_oldest ''aa'' q) []"
    for q using F(5) k[of q] by (simp add: map_has_def)
  have l: "length (cacheSetLimited full_cache_empty_oldest ''aa'' q) = 1000"
    for q using F(1,4) by (simp add: w length_map_set map_has_def)
  from map_has_get[OF F(4)] obtain p' where g: "map_get full_cache_empty_oldest ''aa'' = Some p'"
    by blast
  note I = ingest_hit[OF g F(4), of "sample_env []" "[]"]
  have i1: "fst (ingestHandleOnce (sample_env []) \<lparr>cache = full_cache_empty_oldest, requests = []\<rparr> ''aa'') =
     Fulfilled True" by (simp add: I)
  have i2: "map_keys (cache (snd (ingestHandleOnce (sample_env [])
       \<lparr>cache = full_cache_empty_oldest, requests = []\<rparr> ''aa''))) =
     map_keys full_cache_empty_oldest" by (simp add: I k)
  have full: "CACHE_LIMIT \<le> length full_cache_empty_oldest"
    by (simp add: F(1) CACHE_LIMIT_def)
  show ?thesis
    using full F(3,4) w[of "sample_product 7"] k[of "sample_product 7"] h[of "sample_product 7"]
      l[of "sample_product 7"] i1 i2
    by blast
qed

section \<open>Catalog search: the fuzzy any-word scan\<close>

text \<open>
  \<^verbatim>\<open>
  const slugify = (s) =>
    s.toLowerCase()
     .replace(/(TM)|(R)|(C)/g, "")      // the trade mark, registered and copyright signs
     .replace(/[^a-z0-9\s-]/g, " ")
     .replace(/\s+/g, " ")
     .trim()
     .replace(/\s/g, "-")
     .replace(/-+/g, "-");
  \<close>
  Of the three signs removed first, the registered sign U+00AE and the copyright sign
  U+00A9 are code units below 256; the trade mark sign U+2122 is outside the model.
\<close>

function squeeze :: "(char \<Rightarrow> bool) \<Rightarrow> char \<Rightarrow> string \<Rightarrow> string" where
  "squeeze P r [] = []"
| "squeeze P r (c # cs) =
     (if P c then r # squeeze P r (dropWhile P cs) else c # squeeze P r cs)"
  by pat_completeness auto
termination
  by (relation "measure (\<lambda>(P, r, s). length s)")
     (auto simp: le_imp_less_Suc length_dropWhile_le)

definition slug_char :: "char \<Rightarrow> bool" where
  "slug_char c = (is_lower c \<or> is_digit c \<or> is_space c \<or> c = CHR ''-'')"

definition slugify :: "string \<Rightarrow> string" where
  "slugify s =
     (let s1 = toLowerCase s;
          s2 = filter (\<lambda>c. code c \<noteq> 174 \<and> code c \<noteq> 169) s1;
          s3 = map (\<lambda>c. if slug_char c then c else CHR '' '') s2;
          s4 = squeeze is_space (CHR '' '') s3;
          s5 = trim s4;
          s6 = map (\<lambda>c. if is_space c then CHR ''-'' else c) s5
      in squeeze (\<lambda>c. c = CHR ''-'') (CHR ''-'') s6)"

text \<open>\<^verbatim>\<open>s.includes(w)\<close>: \<open>w\<close> occurs in \<open>s\<close> as a contiguous piece.\<close>

definition includes_str :: "string \<Rightarrow> string \<Rightarrow> bool" where
  "includes_str s w = list_ex (\<lambda>i. take (length w) (drop i s) = w) [0..<Suc (length s)]"

text \<open>
  \<^verbatim>\<open>
  const STOP_WORDS = new Set([
    "what", "whats", "what's", "with", "for", "on", "about", "of", "the", "and", "&",
    "size", "sizes", "dimensions", "dimension", "specs", "spec", "included", "include",
    "warranty", "shipping", "returns", "return", "lead", "time", "leadtime"
  ]);
  \<close>
\<close>

definition STOP_WORDS :: "string list" where
  "STOP_WORDS =
     [''what'', ''whats'', ''what'' @ [CHR 0x27] @ ''s'', ''with'', ''for'', ''on'', ''about'', ''of'',
      ''the'', ''and'', ''&'', ''size'', ''sizes'', ''dimensions'', ''dimension'', ''specs'', ''spec'',
      ''included'', ''include'', ''warranty'', ''shipping'', ''returns'', ''return'', ''lead'',
      ''time'', ''leadtime'']"

text \<open>
  \<^verbatim>\<open>kw.split(/[^a-z0-9+.-]+/i)\<close>: the pieces between the maximal runs of separator
  characters, with an empty piece before a leading and after a trailing run.
\<close>

definition word_sep :: "char \<Rightarrow> bool" where
  "word_sep c = (\<not> (is_lower c \<or> is_upper c \<or> is_digit c \<or> c = CHR ''+'' \<or> c = CHR ''.'' \<or> c = CHR ''-''))"

function split_runs :: "(char \<Rightarrow> bool) \<Rightarrow> string \<Rightarrow> string list" where
  "split_runs sep [] = [[]]"
| "split_runs sep (c # cs) =
     (if sep c then [] # split_runs sep (dropWhile sep cs)
      else (case split_runs sep cs of [] \<Rightarrow> [[c]] | w # ws \<Rightarrow> (c # w) # ws))"
  by pat_completeness auto
termination
  by (relation "measure (\<lambda>(sep, s). length s)")
     (auto simp: le_imp_less_Suc length_dropWhile_le)

definition query_words :: "string \<Rightarrow> string list" where
  "query_words keyword =
     uniq_from []
       (filter (\<lambda>w. w \<noteq> [] \<and> 2 \<le> length w \<and> w \<notin> set STOP_WORDS)
          (map trim (split_runs word_sep (toLowerCase keyword))))"


text \<open>
  An entry of the catalog listing \<^verbatim>\<open>/products.json\<close> (its \<^verbatim>\<open>title\<close> and \<^verbatim>\<open>handle\<close>, both
  strings) and a scored candidate \<^verbatim>\<open>{ handle, title, score }\<close>.
\<close>

record item =
  i_title :: string
  i_handle :: string

record scored =
  sc_handle :: string
  sc_title :: string
  sc_score :: nat

text \<open>
  The environment of the search: that of the fetcher, and the JSON parser of a catalog
  page, which yields \<^verbatim>\<open>j?.products || []\<close> (\<open>None\<close> when the body is not JSON and \<^verbatim>\<open>json()\<close>
  rejects).
\<close>

record 'o search_env = "'o env" +
  parse_products :: "string \<Rightarrow> item list option"

text \<open>The decimal digits of a page number, for the URL of the page.\<close>

function digits_of :: "nat \<Rightarrow> string" where
  "digits_of n =
     (if n < 10 then [char_of (48 + n)] else digits_of (n div 10) @ [char_of (48 + n mod 10)])"
  by pat_completeness auto
termination
  by (relation "measure (\<lambda>n. n)") auto

definition page_url :: "('o, 'z) search_env_scheme \<Rightarrow> nat \<Rightarrow> string" where
  "page_url E page =
     ''https://'' @ STORE_DOMAIN E @ ''/products.json?limit=250&page='' @ digits_of page"

text \<open>
  \<^verbatim>\<open>
  let score = 0;
  for (const w of words) {
    if (title.includes(w) || handle.includes(slugify(w))) score++;
  }
  \<close>
\<close>

definition word_hits :: "string \<Rightarrow> string \<Rightarrow> string \<Rightarrow> bool" where
  "word_hits title handle w = (includes_str title w \<or> includes_str handle (slugify w))"

definition word_score :: "string list \<Rightarrow> string \<Rightarrow> string \<Rightarrow> nat" where
  "word_score words title handle =
     foldl (\<lambda>score w. if word_hits title handle w then score + 1 else score) 0 words"

text \<open>
  \<^verbatim>\<open>
  for (const p of items) {
    const title = (p.title || "").toLowerCase();
    const handle = (p.handle || "").toLowerCase();
    ...
    if (score > 0 && !seen.has(handle)) {
      seen.add(handle);
      scored.push({ handle: p.handle, title: p.title, score });
    }
  }
  \<close>
\<close>

record scan_state =
  st_seen :: "string set"
  st_scored :: "scored list"

definition score_item :: "string list \<Rightarrow> scan_state \<Rightarrow> item \<Rightarrow> scan_state" where
  "score_item words st p =
     (let title = toLowerCase (i_title p);
          handle = toLowerCase (i_handle p);
          score = word_score words title handle
      in if 0 < score \<and> handle \<notin> st_seen st
         then \<lparr>st_seen = insert handle (st_seen st),
               st_scored = st_scored st @
                 [\<lparr>sc_handle = i_handle p, sc_title = i_title p, sc_score = score\<rparr>]\<rparr>
         else st)"

text \<open>
  \<^verbatim>\<open>
  for (let page = 1; page <= maxPages; page++) {
    const url = `https://${STORE_DOMAIN}/products.json?limit=250&page=${page}`;
    const r = await fetch(url, ...);
    if (!r.ok) break;
    const j = await r.json();
    const items = j?.products || [];
    if (!items.length) break;
    for (const p of items) { ... }
    if (items.length < 250) break;
    await sleep(80);
  }
  \<close>
  The first argument counts the rounds left. Neither \<^verbatim>\<open>fetch\<close> nor \<^verbatim>\<open>json()\<close> stands in a
  \<^verbatim>\<open>try\<close>: a rejection of either rejects the search.
\<close>

fun scan_pages ::
  "('o, 'z) search_env_scheme \<Rightarrow> string list \<Rightarrow> nat \<Rightarrow> nat \<Rightarrow> scan_state \<Rightarrow> string list \<Rightarrow>
     scan_state promise \<times> string list" where
  "scan_pages E words 0 page st reqs = (Fulfilled st, reqs)"
| "scan_pages E words (Suc n) page st reqs =
     (let url = page_url E page; reqs1 = reqs @ [url] in
      case net E reqs url of
        NetworkError \<Rightarrow> (Rejected FetchFailed, reqs1)
      | NoReply \<Rightarrow> (Unsettled, reqs1)
      | Response ok body \<Rightarrow>
          if \<not> ok then (Fulfilled st, reqs1)
          else (case parse_products E body of
                  None \<Rightarrow> (Rejected InvalidJson, reqs1)
                | Some items \<Rightarrow>
                    if items = [] then (Fulfilled st, reqs1)
                    else (let st1 = foldl (score_item words) st items in
                          if length items < 250 then (Fulfilled st1, reqs1)
                          else scan_pages E words n (Suc page) st1 reqs1)))"

text \<open>
  \<^verbatim>\<open>scored.sort((a, b) => b.score - a.score || a.title.length - b.title.length);\<close>
  \<^verbatim>\<open>Array.prototype.sort\<close> is stable, and the comparator is a consistent order, so the
  result is the one stable arrangement that the comparator accepts; insertion from the
  right computes it.
\<close>

definition cmp :: "scored \<Rightarrow> scored \<Rightarrow> int" where
  "cmp a b =
     (let d = int (sc_score b) - int (sc_score a)
      in if d \<noteq> 0 then d else int (length (sc_title a)) - int (length (sc_title b)))"

fun insert_cmp :: "scored \<Rightarrow> scored list \<Rightarrow> scored list" where
  "insert_cmp x [] = [x]"
| "insert_cmp x (y # ys) = (if cmp x y \<le> 0 then x # y # ys else y # insert_cmp x ys)"

definition sort_cmp :: "scored list \<Rightarrow> scored list" where
  "sort_cmp xs = foldr insert_cmp xs []"

text \<open>\<^verbatim>\<open>xs.slice(0, n)\<close>: a negative \<open>n\<close> counts from the end.\<close>

definition slice0 :: "'a list \<Rightarrow> int \<Rightarrow> 'a list" where
  "slice0 xs n = (if 0 \<le> n then take (nat n) xs else take (length xs - nat (- n)) xs)"

text \<open>
  \<^verbatim>\<open>
  async function searchProductsByAnyWord(keyword, maxPages = 5, maxResults = 8) {
    const kw = String(keyword || "").toLowerCase();
    const words = Array.from(new Set(kw.split(/[^a-z0-9+.-]+/i).map(w => w.trim())
        .filter(w => w && w.length >= 2 && !STOP_WORDS.has(w))));
    if (!words.length) return [];
    const scored = [];  const seen = new Set();
    for (...) { ... }
    scored.sort(...);
    return scored.slice(0, maxResults);
  }
  \<close>
\<close>

definition searchProductsByAnyWord ::
  "('o, 'z) search_env_scheme \<Rightarrow> string list \<Rightarrow> string \<Rightarrow> nat \<Rightarrow> int \<Rightarrow>
     scored list promise \<times> string list" where
  "searchProductsByAnyWord E reqs keyword maxPages maxResults =
     (let words = query_words keyword in
      if words = [] then (Fulfilled [], reqs)
      else (case scan_pages E words maxPages 1 \<lparr>st_seen = {}, st_scored = []\<rparr> reqs of
              (Fulfilled st, reqs1) \<Rightarrow>
                (Fulfilled (slice0 (sort_cmp (st_scored st)) maxResults), reqs1)
            | (Rejected e, reqs1) \<Rightarrow> (Rejected e, reqs1)
            | (Unsettled, reqs1) \<Rightarrow> (Unsettled, reqs1)))"

text \<open>A catalog of one page.\<close>

definition sample_catalog :: "item list" where
  "sample_catalog =
     [\<lparr>i_title = ''Thermory Barrel Sauna 6 Person'', i_handle = ''thermory-barrel-sauna-6''\<rparr>,
      \<lparr>i_title = ''Harvia Electric Heater'', i_handle = ''harvia-electric-heater''\<rparr>,
      \<lparr>i_title = ''Barrel Sauna'', i_handle = ''barrel-sauna''\<rparr>,
      \<lparr>i_title = ''Cedar Sauna Bucket'', i_handle = ''cedar-bucket''\<rparr>]"

definition catalog_env :: "unit search_env" where
  "catalog_env =
     \<lparr>STORE_DOMAIN = ''shop.example'',
      net = (\<lambda>reqs u. Response True []),
      parse_json = (\<lambda>body. None), page_title = (\<lambda>html. html),
      mine = (\<lambda>html. Some (sample_mined [])), is_json = (\<lambda>s. False), joinable = (\<lambda>s. True),
      parse_products = (\<lambda>body. Some sample_catalog)\<rparr>"


text \<open>
  What the specification counts for a candidate: the query words that appear in its title
  or in its slug (its handle), both read in lower case as the scan reads them.
\<close>

definition word_appears :: "string \<Rightarrow> item \<Rightarrow> bool" where
  "word_appears w p =
     (includes_str (toLowerCase (i_title p)) w \<or> includes_str (toLowerCase (i_handle p)) w)"

definition appearing_words :: "string list \<Rightarrow> item \<Rightarrow> nat" where
  "appearing_words words p = length (filter (\<lambda>w. word_appears w p) words)"

text \<open>Ranking: a higher score first, and among equal scores a title that is not longer.\<close>

definition ranked :: "scored \<Rightarrow> scored \<Rightarrow> bool" where
  "ranked a b =
     (sc_score b < sc_score a \<or>
      (sc_score a = sc_score b \<and> length (sc_title a) \<le> length (sc_title b)))"

text \<open>Every request is answered, and the body of every successful answer is JSON.\<close>

definition responsive :: "('o, 'z) search_env_scheme \<Rightarrow> bool" where
  "responsive E =
     (\<forall>reqs u. \<exists>ok body. net E reqs u = Response ok body \<and> (ok \<longrightarrow> parse_products E body \<noteq> None))"

subsection \<open>Properties of the search\<close>

lemma foldl_count:
  "foldl (\<lambda>score w. if P w then score + 1 else score) a ws = a + length (filter P ws)"
  by (induction ws arbitrary: a) auto

lemma word_score_count: "word_score words t h = length (filter (word_hits t h) words)"
  by (simp add: word_score_def foldl_count)

lemma uniq_from_props:
  "distinct (uniq_from seen xs) \<and> set (uniq_from seen xs) = set xs - set seen"
  by (induction xs arbitrary: seen) auto

lemma query_words_props:
  "distinct (query_words keyword) \<and>
   (\<forall>w\<in>set (query_words keyword). 2 \<le> length w \<and> w \<notin> set STOP_WORDS)"
  using uniq_from_props[of "[]"] by (auto simp: query_words_def)

text \<open>
  A returned candidate carries the score that the loop of the scan computes for its
  title and handle, and that score is positive.
\<close>

definition scored_ok :: "string list \<Rightarrow> scored \<Rightarrow> bool" where
  "scored_ok words e =
     (sc_score e = word_score words (toLowerCase (sc_title e)) (toLowerCase (sc_handle e)) \<and>
      0 < sc_score e)"

lemma score_item_ok:
  assumes "\<forall>e\<in>set (st_scored st). scored_ok words e"
  shows "\<forall>e\<in>set (st_scored (score_item words st p)). scored_ok words e"
  using assms
  by (auto simp: score_item_def Let_def scored_ok_def)

lemma score_items_ok:
  "\<forall>e\<in>set (st_scored st). scored_ok words e \<Longrightarrow>
   \<forall>e\<in>set (st_scored (foldl (score_item words) st items)). scored_ok words e"
proof (induction items arbitrary: st)
  case Nil
  then show ?case by simp
next
  case (Cons p items)
  have "\<forall>e\<in>set (st_scored (score_item words st p)). scored_ok words e"
    using Cons.prems by (rule score_item_ok)
  from Cons.IH[OF this] show ?case by simp
qed

lemma scan_pages_ok:
  assumes "\<forall>e\<in>set (st_scored st). scored_ok words e"
    and "fst (scan_pages E words n page st reqs) = Fulfilled st'"
  shows "\<forall>e\<in>set (st_scored st'). scored_ok words e"
  using assms
proof (induction n arbitrary: page st reqs)
  case 0
  then show ?case by simp
next
  case (Suc n)
  show ?case
  proof (cases "net E reqs (page_url E page)")
    case NetworkError
    with Suc.prems show ?thesis by (simp add: Let_def)
  next
    case NoReply
    with Suc.prems show ?thesis by (simp add: Let_def)
  next
    case (Response ok body)
    show ?thesis
    proof (cases "ok \<and> (\<exists>items. parse_products E body = Some items \<and> items \<noteq> [] \<and> \<not> length items < 250)")
      case True
      then obtain items where it: "parse_products E body = Some items" "items \<noteq> []"
        "\<not> length items < 250" and ok: ok by blast
      let ?st1 = "foldl (score_item words) st items"
      have s1: "\<forall>e\<in>set (st_scored ?st1). scored_ok words e"
        using Suc.prems(1) by (rule score_items_ok)
      have "fst (scan_pages E words n (Suc page) ?st1 (reqs @ [page_url E page])) = Fulfilled st'"
        using Suc.prems(2) Response ok it by (simp add: Let_def)
      from Suc.IH[OF s1 this] show ?thesis .
    next
      case False
      then show ?thesis
        using Suc.prems Response score_items_ok[OF Suc.prems(1)]
        by (auto simp: Let_def split: option.splits if_splits)
    qed
  qed
qed

lemma scan_pages_returns:
  assumes "responsive E"
  shows "\<exists>st'. fst (scan_pages E words n page st reqs) = Fulfilled st'"
proof (induction n arbitrary: page st reqs)
  case 0
  show ?case by simp
next
  case (Suc n)
  from assms obtain ok body where r: "net E reqs (page_url E page) = Response ok body"
    and p: "ok \<longrightarrow> parse_products E body \<noteq> None"
    unfolding responsive_def by blast
  show ?case
  proof (cases ok)
    case False
    then show ?thesis using r by (simp add: Let_def)
  next
    case True
    with p obtain items where it: "parse_products E body = Some items" by auto
    show ?thesis
      using r True it Suc.IH by (simp add: Let_def)
  qed
qed

lemma ranked_cmp: "ranked a b = (cmp a b \<le> 0)"
  by (auto simp: ranked_def cmp_def Let_def)

lemma ranked_trans: "ranked a b \<Longrightarrow> ranked b c \<Longrightarrow> ranked a c"
  by (auto simp: ranked_def)

lemma ranked_total: "\<not> ranked a b \<Longrightarrow> ranked b a"
  by (auto simp: ranked_def)

lemma set_insert_cmp: "set (insert_cmp x ys) = insert x (set ys)"
  by (induction ys) auto

lemma set_sort_cmp: "set (sort_cmp xs) = set xs"
  unfolding sort_cmp_def by (induction xs) (simp_all add: set_insert_cmp)

lemma sorted_insert_cmp:
  "sorted_wrt ranked ys \<Longrightarrow> sorted_wrt ranked (insert_cmp x ys)"
proof (induction ys)
  case Nil
  show ?case by simp
next
  case (Cons y ys)
  show ?case
  proof (cases "cmp x y \<le> 0")
    case True
    then have xy: "ranked x y" by (simp add: ranked_cmp)
    then have "\<forall>z\<in>set ys. ranked x z" using Cons.prems ranked_trans by auto
    then show ?thesis using True xy Cons.prems by simp
  next
    case False
    then have "ranked y x" using ranked_total by (simp add: ranked_cmp)
    then show ?thesis using False Cons by (auto simp: set_insert_cmp)
  qed
qed

lemma sorted_sort_cmp: "sorted_wrt ranked (sort_cmp xs)"
  unfolding sort_cmp_def by (induction xs) (simp_all add: sorted_insert_cmp)

lemma sorted_wrt_take: "sorted_wrt R xs \<Longrightarrow> sorted_wrt R (take n xs)"
  by (induction xs arbitrary: n) (auto simp: take_Cons split: nat.splits dest: in_set_takeD)

lemma search_fulfilled:
  assumes "fst (searchProductsByAnyWord E reqs keyword maxPages maxResults) = Fulfilled res"
    and "0 \<le> maxResults"
  shows "(\<forall>e\<in>set res. scored_ok (query_words keyword) e) \<and> sorted_wrt ranked res \<and>
         int (length res) \<le> maxResults"
proof (cases "query_words keyword = []")
  case True
  then show ?thesis using assms by (simp add: searchProductsByAnyWord_def)
next
  case False
  let ?w = "query_words keyword"
  let ?scan = "scan_pages E ?w maxPages 1 \<lparr>st_seen = {}, st_scored = []\<rparr> reqs"
  obtain r reqs1 where sc: "?scan = (r, reqs1)" by (cases ?scan)
  with assms(1) False obtain st where st: "r = Fulfilled st"
    and res: "res = slice0 (sort_cmp (st_scored st)) maxResults"
    by (cases r) (auto simp: searchProductsByAnyWord_def Let_def)
  have "fst ?scan = Fulfilled st" using sc st by simp
  then have ok: "\<forall>e\<in>set (st_scored st). scored_ok ?w e"
    using scan_pages_ok[of "\<lparr>st_seen = {}, st_scored = []\<rparr>" ?w E maxPages 1 reqs st] by simp
  have tk: "res = take (nat maxResults) (sort_cmp (st_scored st))"
    using res assms(2) by (simp add: slice0_def)
  have "\<forall>e\<in>set res. scored_ok ?w e"
    unfolding tk using ok set_sort_cmp[of "st_scored st"] by (auto dest: in_set_takeD)
  moreover have "sorted_wrt ranked res"
    unfolding tk using sorted_sort_cmp by (rule sorted_wrt_take)
  moreover have "int (length res) \<le> maxResults"
    unfolding tk using assms(2) by simp
  ultimately show ?thesis by simp
qed

lemma search_returns:
  assumes "responsive E"
  shows "\<exists>res. fst (searchProductsByAnyWord E reqs keyword maxPages maxResults) = Fulfilled res"
proof (cases "query_words keyword = []")
  case True
  then show ?thesis by (simp add: searchProductsByAnyWord_def)
next
  case False
  from scan_pages_returns[OF assms] obtain st where
    "fst (scan_pages E (query_words keyword) maxPages 1 \<lparr>st_seen = {}, st_scored = []\<rparr> reqs) =
       Fulfilled st" by blast
  then show ?thesis
    using False by (auto simp: searchProductsByAnyWord_def Let_def split: prod.splits)
qed

lemma catalog_search:
  "searchProductsByAnyWord catalog_env [] ''What is the size of the Barrel sauna'' 5 2 =
     (Fulfilled
        [\<lparr>sc_handle = ''barrel-sauna'', sc_title = ''Barrel Sauna'', sc_score = 2\<rparr>,
         \<lparr>sc_handle = ''thermory-barrel-sauna-6'', sc_title = ''Thermory Barrel Sauna 6 Person'',
           sc_score = 2\<rparr>],
      [''https://shop.example/products.json?limit=250&page=1''])"
  by code_simp

lemma catalog_words: "query_words ''What is the size of the Barrel sauna'' = [''is'', ''barrel'', ''sauna'']"
  by code_simp

lemma catalog_responsive: "responsive catalog_env"
  by (auto simp: responsive_def catalog_env_def)

text \<open>
  The test of the scan compares the handle with the slug form of the word. A word made
  of characters that \<^verbatim>\<open>slugify\<close> removes has the empty slug form, and every string includes
  the empty string: such a word is counted for every product.
\<close>

lemma includes_empty: "includes_str s []"
  by (auto simp: includes_str_def list_ex_iff)

lemma empty_slug_hits_everything: "slugify w = [] \<Longrightarrow> word_hits title handle w"
  by (simp add: word_hits_def includes_empty)

text \<open>
  Claim C9 states that the scan scores a candidate by the number of query words that
  appear in its title or slug, and returns only candidates with a positive score. For
  the query \<open>...\<close> the only query word is \<open>...\<close> itself (the split keeps full stops, and the
  word has three characters). It appears in no title and in no handle of the catalog, so
  that no product has a word to count; the scan gives every product the score 1 and
  returns all four of them, the shortest title first.
\<close>

theorem empty_slug_word_scores_every_product:
  "query_words ''...'' = [''...''] \<and>
   slugify ''...'' = [] \<and>
   list_all (\<lambda>p. \<not> word_appears ''...'' p) sample_catalog \<and>
   list_all (\<lambda>p. appearing_words (query_words ''...'') p = 0) sample_catalog \<and>
   searchProductsByAnyWord catalog_env [] ''...'' 5 8 =
     (Fulfilled
        [\<lparr>sc_handle = ''barrel-sauna'', sc_title = ''Barrel Sauna'', sc_score = 1\<rparr>,
         \<lparr>sc_handle = ''cedar-bucket'', sc_title = ''Cedar Sauna Bucket'', sc_score = 1\<rparr>,
         \<lparr>sc_handle = ''harvia-electric-heater'', sc_title = ''Harvia Electric Heater'',
           sc_score = 1\<rparr>,
         \<lparr>sc_handle = ''thermory-barrel-sauna-6'', sc_title = ''Thermory Barrel Sauna 6 Person'',
           sc_score = 1\<rparr>],
      [''https://shop.example/products.json?limit=250&page=1''])"
  by code_simp

section \<open>The bulk ingestion controller\<close>

text \<open>
  \<^verbatim>\<open>
  const BULK = { running: false, cancelled: false, total: 0, done: 0, failed: 0,
                 queue: [], inFlight: new Set(), errors: [], startedAt: null, endedAt: null };
  \<close>
  The one global job record. The time stamps are not modelled. \<^verbatim>\<open>inFlight\<close> is a set of
  handles, kept here as a duplicate-free list in insertion order; an entry of \<^verbatim>\<open>errors\<close> is
  the pair of a handle and a message.
\<close>

type_synonym error_entry = "handle \<times> string"

record bulk =
  b_running :: bool
  b_cancelled :: bool
  b_total :: nat
  b_done :: nat
  b_failed :: nat
  b_queue :: "handle list"
  b_inFlight :: "handle list"
  b_errors :: "error_entry list"

text \<open>The value \<^verbatim>\<open>runBulkIngest\<close> returns (without \<^verbatim>\<open>duration_ms\<close>).\<close>

record summary =
  s_total :: nat
  s_done :: nat
  s_failed :: nat
  s_errors :: "error_entry list"

text \<open>
  Every call of \<^verbatim>\<open>runBulkIngest\<close> has its own closure: the counter \<^verbatim>\<open>let active = 0\<close>, the
  function \<^verbatim>\<open>next\<close> over it, and the polling loop at the end of the call, which is either
  still asleep (\<open>r_polling\<close>) or has returned its summary.
\<close>

record run =
  r_active :: int
  r_polling :: bool
  r_result :: "summary option"

text \<open>
  A task is one run of the anonymous \<^verbatim>\<open>async\<close> function inside \<^verbatim>\<open>next\<close>: it belongs to the
  closure that started it, works on one handle, and is waiting for \<^verbatim>\<open>withRetry\<close> to settle
  (\<open>Working\<close>), asleep in the pacing delay of its \<^verbatim>\<open>finally\<close> block (\<open>Pacing\<close>), or over.
\<close>

datatype phase = Working | Pacing | Finished

record task =
  t_run :: nat
  t_handle :: handle
  t_phase :: phase

text \<open>
  The whole controller: the global record, the closures in the order of their calls, the
  tasks in the order of their start, and the runs of the handler of \<^verbatim>\<open>/ingest/all\<close> that
  have passed the \<^verbatim>\<open>running\<close> check and wait for the catalog listing (each with its
  \<^verbatim>\<open>limit\<close>).
\<close>

record sys =
  bulk :: bulk
  runs :: "run list"
  tasks :: "task list"
  pending :: "nat list"

definition init_sys :: sys where
  "init_sys =
     \<lparr>bulk = \<lparr>b_running = False, b_cancelled = False, b_total = 0, b_done = 0, b_failed = 0,
              b_queue = [], b_inFlight = [], b_errors = []\<rparr>,
      runs = [], tasks = [], pending = []\<rparr>"

definition set_add :: "handle \<Rightarrow> handle list \<Rightarrow> handle list" where
  "set_add h l = (if h \<in> set l then l else l @ [h])"

definition set_delete :: "handle \<Rightarrow> handle list \<Rightarrow> handle list" where
  "set_delete h l = removeAll h l"

definition active_of :: "sys \<Rightarrow> nat \<Rightarrow> int" where
  "active_of s r = r_active (runs s ! r)"

text \<open>
  \<^verbatim>\<open>
  async function next() {
    if (BULK.cancelled) return;
    if (!BULK.queue.length) return;
    if (active >= INGEST_CONCURRENCY) return;
    const handle = BULK.queue.shift();
    active++;
    BULK.inFlight.add(handle);
    (async () => { try { await withRetry(...) ... } ... })();
  }
  \<close>
  \<open>conc\<close> is \<^verbatim>\<open>INGEST_CONCURRENCY\<close> (50 unless configured). The task started runs up to its
  first \<^verbatim>\<open>await\<close> and is then \<open>Working\<close>.
\<close>

definition dispatch_next :: "int \<Rightarrow> nat \<Rightarrow> sys \<Rightarrow> sys" where
  "dispatch_next conc r s =
     (if b_cancelled (bulk s) then s
      else case b_queue (bulk s) of
        [] \<Rightarrow> s
      | h # q \<Rightarrow>
          if active_of s r \<ge> conc then s
          else s\<lparr>bulk := (bulk s)\<lparr>b_queue := q, b_inFlight := set_add h (b_inFlight (bulk s))\<rparr>,
                 runs := (runs s)[r := (runs s ! r)\<lparr>r_active := active_of s r + 1\<rparr>],
                 tasks := tasks s @ [\<lparr>t_run = r, t_handle = h, t_phase = Working\<rparr>]\<rparr>)"

text \<open>\<^verbatim>\<open>!BULK.cancelled && BULK.queue.length && active < INGEST_CONCURRENCY\<close>\<close>

definition can_dispatch :: "int \<Rightarrow> nat \<Rightarrow> sys \<Rightarrow> bool" where
  "can_dispatch conc r s =
     (\<not> b_cancelled (bulk s) \<and> b_queue (bulk s) \<noteq> [] \<and> active_of s r < conc)"

lemma dispatch_next_queue:
  "length (b_queue (bulk (dispatch_next conc r s))) \<le> length (b_queue (bulk s))"
  by (simp add: dispatch_next_def split: list.splits)

lemma dispatch_next_queue_less:
  "can_dispatch conc r s \<Longrightarrow>
   length (b_queue (bulk (dispatch_next conc r s))) < length (b_queue (bulk s))"
  by (auto simp: dispatch_next_def can_dispatch_def split: list.splits)

text \<open>\<^verbatim>\<open>while (!BULK.cancelled && BULK.queue.length && active < INGEST_CONCURRENCY) next();\<close>\<close>

function dispatch_while :: "int \<Rightarrow> nat \<Rightarrow> sys \<Rightarrow> sys" where
  "dispatch_while conc r s =
     (if can_dispatch conc r s then dispatch_while conc r (dispatch_next conc r s) else s)"
  by pat_completeness auto
termination
  by (relation "measure (\<lambda>(conc, r, s). length (b_queue (bulk s)))")
     (auto simp: dispatch_next_queue_less)

text \<open>
  \<^verbatim>\<open>for (let i = 0; i < Math.min(INGEST_CONCURRENCY, BULK.queue.length); i++) next();\<close>
  The bound is computed again before every round, from the queue as it then is.
\<close>

function start_loop :: "int \<Rightarrow> nat \<Rightarrow> nat \<Rightarrow> sys \<Rightarrow> sys" where
  "start_loop conc r i s =
     (if int i < min conc (int (length (b_queue (bulk s))))
      then start_loop conc r (Suc i) (dispatch_next conc r s) else s)"
  by pat_completeness auto
termination
proof (relation "measure (\<lambda>(conc, r, i, s). length (b_queue (bulk s)) - i)", goal_cases)
  case 1
  show ?case by simp
next
  case (2 conc r i s)
  then show ?case
    using dispatch_next_queue[of conc r s] by (simp, arith)
qed

text \<open>
  \<^verbatim>\<open>
  while (!BULK.cancelled && (BULK.done + BULK.failed < BULK.total || active > 0)) {
    await sleep(200);
  }
  BULK.running = false;
  BULK.endedAt = Date.now();
  return { total: BULK.total, done: BULK.done, failed: BULK.failed, duration_ms: ...,
           errors: BULK.errors.slice(0, 20) };
  \<close>
  One evaluation of the loop condition by the closure \<open>r\<close>: the loop sleeps on, or the
  call ends: the job is Completed.
\<close>

definition keep_polling :: "nat \<Rightarrow> sys \<Rightarrow> bool" where
  "keep_polling r s =
     (\<not> b_cancelled (bulk s) \<and>
      (b_done (bulk s) + b_failed (bulk s) < b_total (bulk s) \<or> active_of s r > 0))"

definition summary_of :: "bulk \<Rightarrow> summary" where
  "summary_of b =
     \<lparr>s_total = b_total b, s_done = b_done b, s_failed = b_failed b,
      s_errors = take 20 (b_errors b)\<rparr>"

definition poll :: "nat \<Rightarrow> sys \<Rightarrow> sys" where
  "poll r s =
     (if r < length (runs s) \<and> r_polling (runs s ! r) then
        if keep_polling r s then s
        else s\<lparr>bulk := (bulk s)\<lparr>b_running := False\<rparr>,
               runs := (runs s)[r := (runs s ! r)\<lparr>r_polling := False,
                                                 r_result := Some (summary_of (bulk s))\<rparr>]\<rparr>
      else s)"

text \<open>
  \<^verbatim>\<open>
  async function runBulkIngest(handles = []) {
    BULK.running = true;  BULK.cancelled = false;
    BULK.total = handles.length;  BULK.done = 0;  BULK.failed = 0;  BULK.errors = [];
    BULK.queue = handles.slice();  BULK.inFlight.clear();
    ...
    let active = 0;
    async function next() { ... }
    for (...) next();
    while (...) { await sleep(200); }
    ...
  }
  \<close>
  The call runs without interruption up to the first evaluation of the loop condition.
\<close>

definition runBulkIngest :: "int \<Rightarrow> handle list \<Rightarrow> sys \<Rightarrow> sys" where
  "runBulkIngest conc handles s =
     (let r = length (runs s);
          s0 = s\<lparr>bulk := \<lparr>b_running = True, b_cancelled = False, b_total = length handles,
                            b_done = 0, b_failed = 0, b_queue = handles, b_inFlight = [],
                            b_errors = []\<rparr>,
                  runs := runs s @ [\<lparr>r_active = 0, r_polling = True, r_result = None\<rparr>]\<rparr>
      in poll r (start_loop conc r 0 s0))"

text \<open>
  The task \<open>tid\<close> when its \<^verbatim>\<open>withRetry\<close> settles:
  \<^verbatim>\<open>
  try { await withRetry(() => ingestHandleOnce(handle), ...); BULK.done++; }
  catch (e) { BULK.failed++; BULK.errors.push({ handle, error: String(e?.message || e) }); }
  finally {
    active--;
    BULK.inFlight.delete(handle);
    if (!BULK.cancelled && BULK.queue.length && active < INGEST_CONCURRENCY) {
      await sleep(INGEST_BATCH_DELAY_MS);
      next();
    }
    while (!BULK.cancelled && BULK.queue.length && active < INGEST_CONCURRENCY) next();
  }
  \<close>
  \<open>settle\<close> runs from the settlement to the \<^verbatim>\<open>await sleep\<close> (the task is then \<open>Pacing\<close>) or,
  when the condition fails, through the \<^verbatim>\<open>while\<close> loop to the end; \<open>wake\<close> runs from the
  end of the sleep to the end. Each is one uninterrupted piece of execution; the phase
  of the task is set to the point where the piece stops.
\<close>

datatype outcome = Ok | Failed string

definition record_outcome :: "handle \<Rightarrow> outcome \<Rightarrow> bulk \<Rightarrow> bulk" where
  "record_outcome h out b =
     (case out of
        Ok \<Rightarrow> b\<lparr>b_done := b_done b + 1\<rparr>
      | Failed msg \<Rightarrow> b\<lparr>b_failed := b_failed b + 1, b_errors := b_errors b @ [(h, msg)]\<rparr>)"

definition set_phase :: "nat \<Rightarrow> phase \<Rightarrow> sys \<Rightarrow> sys" where
  "set_phase tid ph s = s\<lparr>tasks := (tasks s)[tid := (tasks s ! tid)\<lparr>t_phase := ph\<rparr>]\<rparr>"

definition settle :: "int \<Rightarrow> nat \<Rightarrow> outcome \<Rightarrow> sys \<Rightarrow> sys" where
  "settle conc tid out s =
     (if tid < length (tasks s) \<and> t_phase (tasks s ! tid) = Working then
        (let t = tasks s ! tid; r = t_run t; h = t_handle t;
             b1 = record_outcome h out (bulk s);
             s1 = s\<lparr>bulk := b1\<lparr>b_inFlight := set_delete h (b_inFlight b1)\<rparr>,
                    runs := (runs s)[r := (runs s ! r)\<lparr>r_active := active_of s r - 1\<rparr>]\<rparr>
         in if can_dispatch conc r s1 then set_phase tid Pacing s1
            else dispatch_while conc r (set_phase tid Finished s1))
      else s)"

definition wake :: "int \<Rightarrow> nat \<Rightarrow> sys \<Rightarrow> sys" where
  "wake conc tid s =
     (if tid < length (tasks s) \<and> t_phase (tasks s ! tid) = Pacing then
        (let r = t_run (tasks s ! tid)
         in dispatch_while conc r (dispatch_next conc r (set_phase tid Finished s)))
      else s)"

text \<open>
  \<^verbatim>\<open>
  app.post("/ingest/cancel", (_req, res) => {
    if (!BULK.running) return res.json({ ok: true, message: "No bulk job running" });
    BULK.cancelled = true;
    ...
  \<close>
\<close>

definition cancel :: "sys \<Rightarrow> sys" where
  "cancel s = (if b_running (bulk s) then s\<lparr>bulk := (bulk s)\<lparr>b_cancelled := True\<rparr>\<rparr> else s)"

text \<open>
  \<^verbatim>\<open>
  app.get("/ingest/all", async (req, res) => {
    if (BULK.running) return res.status(409).json(...);
    const queryHandles = String(req.query.handles || "").split(",").map(s => s.trim()).filter(Boolean);
    let handles = queryHandles.length ? queryHandles : await listAllProductHandles();
    const limit = Number(req.query.limit || 0);
    if (limit && limit > 0) handles = handles.slice(0, limit);
    if (!handles.length) return res.status(404).json(...);
    runBulkIngest(handles).catch(() => {});
    ...
  \<close>
  With explicit handles the handler runs from the check to \<^verbatim>\<open>runBulkIngest\<close> in one piece.
  Without them it waits for the catalog listing in between: \<open>listing_done\<close> is the rest of
  the handler once the listing of the \<open>k\<close>-th waiting request has arrived (\<open>None\<close> when the
  listing failed and the handler answers 500). The limit is a natural number, 0 for none.
\<close>

fun split_on :: "char \<Rightarrow> string \<Rightarrow> string list" where
  "split_on c [] = [[]]"
| "split_on c (x # xs) =
     (if x = c then [] # split_on c xs
      else (case split_on c xs of [] \<Rightarrow> [[x]] | w # ws \<Rightarrow> (x # w) # ws))"

definition parse_handles :: "string \<Rightarrow> handle list" where
  "parse_handles raw = filter (\<lambda>h. h \<noteq> []) (map trim (split_on CHR '','' raw))"

definition launch :: "int \<Rightarrow> nat \<Rightarrow> handle list \<Rightarrow> sys \<Rightarrow> sys" where
  "launch conc limit hs s =
     (let handles = (if 0 < limit then take limit hs else hs)
      in if handles = [] then s else runBulkIngest conc handles s)"

definition get_ingest_all :: "int \<Rightarrow> string \<Rightarrow> nat \<Rightarrow> sys \<Rightarrow> sys" where
  "get_ingest_all conc raw limit s =
     (if b_running (bulk s) then s
      else if parse_handles raw \<noteq> [] then launch conc limit (parse_handles raw) s
      else s\<lparr>pending := pending s @ [limit]\<rparr>)"

definition listing_done :: "int \<Rightarrow> nat \<Rightarrow> handle list option \<Rightarrow> sys \<Rightarrow> sys" where
  "listing_done conc k listing s =
     (if k < length (pending s) then
        (let limit = pending s ! k;
             s1 = s\<lparr>pending := take k (pending s) @ drop (Suc k) (pending s)\<rparr>
         in case listing of None \<Rightarrow> s1 | Some hs \<Rightarrow> launch conc limit hs s1)
      else s)"

subsection \<open>The routes\<close>

text \<open>
  The routes of the program, in the order in which the source registers them:
  \<^verbatim>\<open>
  app.get("/health", ...)             (line 107)
  app.get("/test-openai", ...)        (line 135)
  app.get("/", ...)                   (line 1584)
  app.get("/debug", ...)              (line 1588)
  app.get("/ingest/:handle", ...)     (line 1597)
  app.get("/ingest/all", ...)         (line 1611)
  app.get("/ingest/status", ...)      (line 1639)
  app.post("/ingest/cancel", ...)     (line 1655)
  app.post("/chat", ...)              (line 1662)
  \<close>
  Express offers a request to the routes of its method in this order and runs the
  handler of the first route whose pattern matches the path. A later route is tried only
  when a handler calls \<^verbatim>\<open>next()\<close>; every handler of this program takes \<^verbatim>\<open>(req, res)\<close> alone and
  answers. A pattern is a sequence of segments: a literal, compared without regard to
  case, or a named parameter (\<^verbatim>\<open>:handle\<close>), which matches every non-empty segment. The path
  of a request is the list of its segments.
\<close>

datatype seg = Lit string | Param

datatype http_method = GET | POST

datatype handler =
    Health | TestOpenai | Root | Debug | IngestHandle | IngestAll | IngestStatus
  | IngestCancel | Chat

definition routes :: "(http_method \<times> seg list \<times> handler) list" where
  "routes =
     [(GET, [Lit ''health''], Health),
      (GET, [Lit ''test-openai''], TestOpenai),
      (GET, [], Root),
      (GET, [Lit ''debug''], Debug),
      (GET, [Lit ''ingest'', Param], IngestHandle),
      (GET, [Lit ''ingest'', Lit ''all''], IngestAll),
      (GET, [Lit ''ingest'', Lit ''status''], IngestStatus),
      (POST, [Lit ''ingest'', Lit ''cancel''], IngestCancel),
      (POST, [Lit ''chat''], Chat)]"

fun seg_matches :: "seg \<Rightarrow> string \<Rightarrow> bool" where
  "seg_matches (Lit l) x = (toLowerCase x = toLowerCase l)"
| "seg_matches Param x = (x \<noteq> [])"

definition route_matches :: "seg list \<Rightarrow> string list \<Rightarrow> bool" where
  "route_matches pat path = list_all2 seg_matches pat path"

definition dispatch :: "http_method \<Rightarrow> string list \<Rightarrow> handler option" where
  "dispatch m path =
     (case filter (\<lambda>(m', pat, h). m' = m \<and> route_matches pat path) routes of
        [] \<Rightarrow> None
      | (m', pat, h) # rest \<Rightarrow> Some h)"

text \<open>
  A request: its method, its path, and the query parameters \<^verbatim>\<open>handles\<close> (empty when
  absent) and \<^verbatim>\<open>limit\<close> (0 when absent).
\<close>

record request =
  rq_method :: http_method
  rq_path :: "string list"
  rq_handles :: string
  rq_limit :: nat

text \<open>
  What a request does to the controller. Of all handlers, that of \<^verbatim>\<open>/ingest/all\<close> and that
  of \<^verbatim>\<open>/ingest/cancel\<close> alone write to \<^verbatim>\<open>BULK\<close>; that of \<^verbatim>\<open>/ingest/status\<close> reads it. The handler
  of \<^verbatim>\<open>/ingest/:handle\<close> resolves the product named by the segment through
  \<^verbatim>\<open>ensureProductByHandle\<close> and answers 404, 500 or \<^verbatim>\<open>ok\<close>: it reads and writes the product
  cache, which is no part of the controller.
\<close>

definition serve :: "int \<Rightarrow> request \<Rightarrow> sys \<Rightarrow> sys" where
  "serve conc rq s =
     (case dispatch (rq_method rq) (rq_path rq) of
        Some IngestAll \<Rightarrow> get_ingest_all conc (rq_handles rq) (rq_limit rq) s
      | Some IngestCancel \<Rightarrow> cancel s
      | _ \<Rightarrow> s)"



text \<open>
  What can happen to the controller, one event at a time: a request arrives, the catalog
  listing of a waiting request arrives, the work of a task settles, the pacing delay of
  a task ends, a polling loop wakes up. The order and the timing of events is the
  environment's; an event that cannot happen in a state leaves it as it is.
\<close>

datatype event =
    Http request
  | ListingDone nat "handle list option"
  | Settle nat outcome
  | Wake nat
  | Poll nat

fun step :: "int \<Rightarrow> sys \<Rightarrow> event \<Rightarrow> sys" where
  "step conc s (Http rq) = serve conc rq s"
| "step conc s (ListingDone k listing) = listing_done conc k listing s"
| "step conc s (Settle tid out) = settle conc tid out s"
| "step conc s (Wake tid) = wake conc tid s"
| "step conc s (Poll r) = poll r s"

definition exec :: "int \<Rightarrow> sys \<Rightarrow> event list \<Rightarrow> sys" where
  "exec conc s evs = foldl (step conc) s evs"


definition cancel_request :: request where
  "cancel_request =
     \<lparr>rq_method = POST, rq_path = [''ingest'', ''cancel''], rq_handles = [], rq_limit = 0\<rparr>"

subsection \<open>The bulk handler is never reached\<close>

declare dispatch_while.simps [simp del] start_loop.simps [simp del]

text \<open>
  Every path that the pattern \<^verbatim>\<open>/ingest/all\<close> (or \<^verbatim>\<open>/ingest/status\<close>) matches is matched by
  \<^verbatim>\<open>/ingest/:handle\<close>, which is registered before: a request to \<^verbatim>\<open>GET /ingest/all\<close> is answered
  by the handler of \<^verbatim>\<open>/ingest/:handle\<close>, with the handle \<open>all\<close>.
\<close>

lemma ingest_all_shadowed:
  "route_matches [Lit ''ingest'', Lit l] path \<Longrightarrow> l \<noteq> [] \<Longrightarrow>
   route_matches [Lit ''ingest'', Param] path"
  by (auto simp: route_matches_def list_all2_Cons1 toLowerCase_def)


lemma dispatch_ingest_status: "dispatch GET [''ingest'', ''status''] = Some IngestHandle"
  by code_simp



lemma dispatch_never_bulk:
  "dispatch m path \<noteq> Some IngestAll \<and> dispatch m path \<noteq> Some IngestStatus"
proof (cases "route_matches [Lit ''ingest'', Param] path")
  case True
  then show ?thesis
    by (cases m) (auto simp: dispatch_def routes_def route_matches_def list_all2_Cons1)
next
  case False
  then have "\<not> route_matches [Lit ''ingest'', Lit ''all''] path"
    "\<not> route_matches [Lit ''ingest'', Lit ''status''] path"
    using ingest_all_shadowed by fastforce+
  with False show ?thesis
    by (cases m) (auto simp: dispatch_def routes_def)
qed

lemma serve_cases: "serve conc rq s = s \<or> serve conc rq s = cancel s"
  using dispatch_never_bulk[of "rq_method rq" "rq_path rq"]
  by (auto simp: serve_def split: option.splits handler.splits)



subsection \<open>Accounting of one job\<close>

text \<open>
  The rest of this section is about \<^verbatim>\<open>runBulkIngest\<close> itself: what a call of it does when it
  is made, followed by any events.
\<close>

definition working :: "sys \<Rightarrow> nat" where
  "working s = length (filter (\<lambda>t. t_phase t = Working) (tasks s))"

text \<open>
  The closure \<open>r\<close> is the only one with live tasks, its counter \<^verbatim>\<open>active\<close> is the number of
  its working tasks, and every handle of the job is counted once: as done, failed, in
  progress or queued.
\<close>

definition accounted :: "nat \<Rightarrow> sys \<Rightarrow> bool" where
  "accounted r s =
     (r < length (runs s) \<and>
      (\<forall>t\<in>set (tasks s). t_phase t \<noteq> Finished \<longrightarrow> t_run t = r) \<and>
      active_of s r = int (working s) \<and>
      b_done (bulk s) + b_failed (bulk s) + working s + length (b_queue (bulk s)) = b_total (bulk s))"

text \<open>What dispatching never touches.\<close>

definition frame :: "sys \<Rightarrow> bool \<times> bool \<times> nat \<times> nat \<times> nat \<times> error_entry list \<times> bool list \<times> summary option list \<times> nat list" where
  "frame s =
     (b_running (bulk s), b_cancelled (bulk s), b_total (bulk s), b_done (bulk s),
      b_failed (bulk s), b_errors (bulk s), map r_polling (runs s), map r_result (runs s),
      pending s)"

lemma map_field_update:
  assumes "r < length xs" "f y = f (xs ! r)"
  shows "map f (xs[r := y]) = map f xs"
  using assms by (simp add: map_update list_update_same_conv)

lemma frame_dispatch_next:
  "r < length (runs s) \<Longrightarrow> frame (dispatch_next conc r s) = frame s"
  by (auto simp: dispatch_next_def frame_def map_field_update split: list.splits)

lemma accounted_dispatch_next:
  "accounted r s \<Longrightarrow> accounted r (dispatch_next conc r s)"
  by (auto simp: dispatch_next_def accounted_def working_def active_of_def split: list.splits)

lemma dispatch_while_keeps:
  "accounted r s \<Longrightarrow>
   accounted r (dispatch_while conc r s) \<and> frame (dispatch_while conc r s) = frame s"
proof (induction conc r s rule: dispatch_while.induct)
  case (1 conc r s)
  show ?case
  proof (cases "can_dispatch conc r s")
    case True
    have a: "accounted r (dispatch_next conc r s)" using "1.prems" by (rule accounted_dispatch_next)
    have f: "frame (dispatch_next conc r s) = frame s"
      using "1.prems" by (simp add: frame_dispatch_next accounted_def)
    from "1.IH"[OF True a] f True show ?thesis
      by (subst (1 2) dispatch_while.simps) auto
  next
    case False
    then show ?thesis using "1.prems" by (subst (1 2) dispatch_while.simps) auto
  qed
qed

lemma start_loop_keeps:
  "accounted r s \<Longrightarrow>
   accounted r (start_loop conc r i s) \<and> frame (start_loop conc r i s) = frame s"
proof (induction conc r i s rule: start_loop.induct)
  case (1 conc r i s)
  show ?case
  proof (cases "int i < min conc (int (length (b_queue (bulk s))))")
    case True
    have a: "accounted r (dispatch_next conc r s)" using "1.prems" by (rule accounted_dispatch_next)
    have f: "frame (dispatch_next conc r s) = frame s"
      using "1.prems" by (simp add: frame_dispatch_next accounted_def)
    from "1.IH"[OF True a] f True show ?thesis
      by (subst (1 2) start_loop.simps) auto
  next
    case False
    then show ?thesis using "1.prems" by (subst (1 2) start_loop.simps) auto
  qed
qed

lemma filter_update_length:
  "i < length xs \<Longrightarrow>
   length (filter P (xs[i := y])) + (if P (xs ! i) then 1 else 0) =
   length (filter P xs) + (if P y then 1 else 0)"
proof (induction xs arbitrary: i)
  case Nil
  then show ?case by simp
next
  case (Cons x xs)
  then show ?case by (cases i) auto
qed

lemma working_pos:
  "tid < length (tasks s) \<Longrightarrow> t_phase (tasks s ! tid) = Working \<Longrightarrow> 0 < working s"
  unfolding working_def by (simp add: filter_empty_conv) (metis nth_mem)

lemma working_set_phase:
  assumes "tid < length (tasks s)" "ph \<noteq> Working"
  shows "working (set_phase tid ph s) =
           (if t_phase (tasks s ! tid) = Working then working s - 1 else working s)"
  using filter_update_length[OF assms(1), of "\<lambda>t. t_phase t = Working"
      "(tasks s ! tid)\<lparr>t_phase := ph\<rparr>"] assms(2)
  by (auto simp: working_def set_phase_def)

lemma set_phase_fields:
  "bulk (set_phase tid ph s) = bulk s" "runs (set_phase tid ph s) = runs s"
  "pending (set_phase tid ph s) = pending s" "frame (set_phase tid ph s) = frame s"
  "active_of (set_phase tid ph s) r = active_of s r"
  by (simp_all add: set_phase_def frame_def active_of_def)

lemma set_phase_alive:
  assumes "\<forall>t\<in>set (tasks s). t_phase t \<noteq> Finished \<longrightarrow> t_run t = r"
    and "tid < length (tasks s)" "t_phase (tasks s ! tid) \<noteq> Finished"
  shows "\<forall>t\<in>set (tasks (set_phase tid ph s)). t_phase t \<noteq> Finished \<longrightarrow> t_run t = r"
proof
  fix t assume "t \<in> set (tasks (set_phase tid ph s))"
  then have "t = (tasks s ! tid)\<lparr>t_phase := ph\<rparr> \<or> t \<in> set (tasks s)"
    using set_update_subset_insert[of "tasks s" tid] by (auto simp: set_phase_def)
  moreover have "t_run (tasks s ! tid) = r" using assms by auto
  ultimately show "t_phase t \<noteq> Finished \<longrightarrow> t_run t = r" using assms(1) by auto
qed

text \<open>
  The state of the job of closure \<open>r\<close>, started with \<open>n\<close> handles, as long as no other
  call of \<^verbatim>\<open>runBulkIngest\<close> is made: every handle is accounted for, no other closure
  polls, and once the polling loop has ended without a cancellation the summary is the
  final state of the counters, with nothing left in progress or queued.
\<close>

definition job_inv :: "nat \<Rightarrow> nat \<Rightarrow> sys \<Rightarrow> bool" where
  "job_inv r n s =
     (accounted r s \<and> b_total (bulk s) = n \<and>
      (\<forall>r'<length (runs s). r' \<noteq> r \<longrightarrow> \<not> r_polling (runs s ! r')) \<and>
      (r_polling (runs s ! r) \<longrightarrow> r_result (runs s ! r) = None) \<and>
      (\<not> r_polling (runs s ! r) \<longrightarrow>
         \<not> b_running (bulk s) \<and>
         (\<exists>sm. r_result (runs s ! r) = Some sm \<and>
            (\<not> b_cancelled (bulk s) \<longrightarrow>
               sm = summary_of (bulk s) \<and> working s = 0 \<and> b_queue (bulk s) = []))))"

lemma frame_polling:
  "frame s' = frame s \<Longrightarrow> length (runs s') = length (runs s) \<and>
     (\<forall>r<length (runs s). r_polling (runs s' ! r) = r_polling (runs s ! r) \<and>
                           r_result (runs s' ! r) = r_result (runs s ! r))"
proof -
  assume f: "frame s' = frame s"
  then have p: "map r_polling (runs s') = map r_polling (runs s)"
    and q: "map r_result (runs s') = map r_result (runs s)" by (simp_all add: frame_def)
  from p have l: "length (runs s') = length (runs s)" by (metis length_map)
  show ?thesis using l p q by (metis nth_map)
qed

lemma frame_summary:
  "frame s' = frame s \<Longrightarrow> summary_of (bulk s') = summary_of (bulk s) \<and>
     b_running (bulk s') = b_running (bulk s) \<and> b_cancelled (bulk s') = b_cancelled (bulk s) \<and>
     b_total (bulk s') = b_total (bulk s) \<and> b_done (bulk s') = b_done (bulk s) \<and>
     b_failed (bulk s') = b_failed (bulk s)"
  by (simp add: frame_def summary_of_def)

lemma job_inv_frame:
  assumes "job_inv r n s" "accounted r s'" "frame s' = frame s"
  shows "job_inv r n s'"
proof -
  note P = frame_polling[OF assms(3)] and S = frame_summary[OF assms(3)]
  have r: "r < length (runs s)" using assms(1) by (simp add: job_inv_def accounted_def)
  have acc: "b_done (bulk s') + b_failed (bulk s') + working s' + length (b_queue (bulk s')) = n"
    using assms(1,2) S by (simp add: job_inv_def accounted_def)
  have fin: "working s' = 0 \<and> b_queue (bulk s') = []"
    if "\<not> r_polling (runs s ! r)" "\<not> b_cancelled (bulk s)"
  proof -
    from that assms(1) have "working s = 0" "b_queue (bulk s) = []"
      by (auto simp: job_inv_def)
    then have "b_done (bulk s) + b_failed (bulk s) = n"
      using assms(1) by (simp add: job_inv_def accounted_def)
    then show ?thesis using acc S by simp
  qed
  show ?thesis
    unfolding job_inv_def
    using assms(1,2) P S r fin by (auto simp: job_inv_def)
qed

lemma job_inv_cancel: "job_inv r n s \<Longrightarrow> job_inv r n (cancel s)"
  by (auto simp: cancel_def job_inv_def accounted_def working_def active_of_def)

lemma job_inv_poll:
  assumes "job_inv r n s"
  shows "job_inv r n (poll r' s)"
proof (cases "r' < length (runs s) \<and> r_polling (runs s ! r') \<and> \<not> keep_polling r' s")
  case False
  then show ?thesis using assms by (auto simp: poll_def)
next
  case True
  then have rr: "r' = r" using assms by (auto simp: job_inv_def)
  have r: "r < length (runs s)" using True rr by simp
  have acc: "accounted r s" using assms by (simp add: job_inv_def)
  have fin: "working s = 0 \<and> b_queue (bulk s) = []" if "\<not> b_cancelled (bulk s)"
  proof -
    from True rr that have le: "b_total (bulk s) \<le> b_done (bulk s) + b_failed (bulk s)"
      and act: "active_of s r \<le> 0" by (auto simp: keep_polling_def)
    from acc have eq: "b_done (bulk s) + b_failed (bulk s) + working s +
        length (b_queue (bulk s)) = b_total (bulk s)"
      and "active_of s r = int (working s)" by (simp_all add: accounted_def)
    with act have w0: "working s = 0" by simp
    from eq w0 le have "length (b_queue (bulk s)) = 0" by linarith
    then show ?thesis using w0 by simp
  qed
  have p: "poll r' s = s\<lparr>bulk := (bulk s)\<lparr>b_running := False\<rparr>,
               runs := (runs s)[r := (runs s ! r)\<lparr>r_polling := False,
                                                 r_result := Some (summary_of (bulk s))\<rparr>]\<rparr>"
    using True rr by (simp add: poll_def)
  show ?thesis
    unfolding p using assms r fin
    by (auto simp: job_inv_def accounted_def working_def active_of_def summary_of_def nth_list_update)
qed

lemma job_inv_wake:
  assumes "job_inv r n s"
  shows "job_inv r n (wake conc tid s)"
proof (cases "tid < length (tasks s) \<and> t_phase (tasks s ! tid) = Pacing")
  case False
  then show ?thesis using assms by (auto simp: wake_def)
next
  case True
  have acc: "accounted r s" using assms by (simp add: job_inv_def)
  have run: "t_run (tasks s ! tid) = r" using acc True by (auto simp: accounted_def)
  let ?s1 = "set_phase tid Finished s"
  have a1: "accounted r ?s1"
    unfolding accounted_def
    using acc True set_phase_alive[of s r tid Finished] working_set_phase[of tid s Finished]
    by (auto simp: accounted_def set_phase_fields)
  let ?s2 = "dispatch_next conc r ?s1"
  have a2: "accounted r ?s2" using a1 by (rule accounted_dispatch_next)
  have f2: "frame ?s2 = frame s"
    using a1 by (simp add: frame_dispatch_next accounted_def set_phase_fields)
  let ?s3 = "dispatch_while conc r ?s2"
  from dispatch_while_keeps[OF a2] f2 have "accounted r ?s3" "frame ?s3 = frame s" by simp_all
  then have "job_inv r n ?s3" using job_inv_frame[OF assms] by blast
  then show ?thesis using True run by (simp add: wake_def Let_def)
qed

lemma job_inv_settle:
  assumes "job_inv r n s"
  shows "job_inv r n (settle conc tid out s)"
proof (cases "tid < length (tasks s) \<and> t_phase (tasks s ! tid) = Working")
  case False
  then show ?thesis using assms by (auto simp: settle_def)
next
  case True
  have acc: "accounted r s" using assms by (simp add: job_inv_def)
  have run: "t_run (tasks s ! tid) = r" using acc True by (auto simp: accounted_def)
  have wpos: "0 < working s" using True working_pos by blast
  define h where "h = t_handle (tasks s ! tid)"
  define b1 where "b1 = record_outcome h out (bulk s)"
  define s1 where "s1 = s\<lparr>bulk := b1\<lparr>b_inFlight := set_delete h (b_inFlight b1)\<rparr>,
                    runs := (runs s)[r := (runs s ! r)\<lparr>r_active := active_of s r - 1\<rparr>]\<rparr>"
  have b1: "b_done b1 + b_failed b1 = b_done (bulk s) + b_failed (bulk s) + 1"
    "b_total b1 = b_total (bulk s)" "b_queue b1 = b_queue (bulk s)"
    "b_running b1 = b_running (bulk s)" "b_cancelled b1 = b_cancelled (bulk s)"
    by (auto simp: b1_def record_outcome_def split: outcome.splits)
  have r: "r < length (runs s)" using acc by (simp add: accounted_def)
  have t1: "tasks s1 = tasks s" by (simp add: s1_def)
  have pol: "length (runs s1) = length (runs s)"
    "\<And>r'. r' < length (runs s) \<Longrightarrow> r_polling (runs s1 ! r') = r_polling (runs s ! r') \<and>
        r_result (runs s1 ! r') = r_result (runs s ! r')"
    using r by (auto simp: s1_def nth_list_update)
  have inv_ph: "job_inv r n (set_phase tid ph s1)" if ph: "ph \<noteq> Working" for ph
  proof -
    have w: "working (set_phase tid ph s1) = working s - 1"
      using working_set_phase[of tid s1 ph] True ph t1 by (simp add: working_def)
    have al: "\<forall>t\<in>set (tasks (set_phase tid ph s1)). t_phase t \<noteq> Finished \<longrightarrow> t_run t = r"
      using set_phase_alive[of s1 r tid ph] acc True t1 by (auto simp: accounted_def)
    have act: "active_of (set_phase tid ph s1) r = int (working s) - 1"
      using acc r by (simp add: set_phase_fields s1_def active_of_def accounted_def)
    have a: "accounted r (set_phase tid ph s1)"
      unfolding accounted_def
      using al act w wpos acc b1 pol(1)
      by (auto simp: set_phase_fields s1_def accounted_def)
    have notfin: "r_polling (runs s ! r) \<or> b_cancelled (bulk s)"
      using assms wpos by (auto simp: job_inv_def)
    show ?thesis
      unfolding job_inv_def
      using a assms pol b1 notfin r
      by (auto simp: set_phase_fields job_inv_def s1_def)
  qed
  show ?thesis
  proof (cases "can_dispatch conc r s1")
    case c: True
    have "settle conc tid out s = set_phase tid Pacing s1"
      using True c run by (simp add: settle_def Let_def s1_def b1_def h_def)
    then show ?thesis using inv_ph[of Pacing] by simp
  next
    case c: False
    have e: "settle conc tid out s = dispatch_while conc r (set_phase tid Finished s1)"
      using True c run by (simp add: settle_def Let_def s1_def b1_def h_def)
    have j: "job_inv r n (set_phase tid Finished s1)" using inv_ph[of Finished] by simp
    then have "accounted r (set_phase tid Finished s1)" by (simp add: job_inv_def)
    from dispatch_while_keeps[OF this] job_inv_frame[OF j] show ?thesis unfolding e by blast
  qed
qed

text \<open>The events that can start another job: the arrival of a catalog listing.\<close>

definition is_start :: "event \<Rightarrow> bool" where
  "is_start e = (case e of ListingDone k l \<Rightarrow> True | _ \<Rightarrow> False)"

lemma job_inv_serve: "job_inv r n s \<Longrightarrow> job_inv r n (serve conc rq s)"
  using serve_cases[of conc rq s] by (auto simp: job_inv_cancel)

lemma job_inv_step:
  "job_inv r n s \<Longrightarrow> \<not> is_start e \<Longrightarrow> job_inv r n (step conc s e)"
  by (cases e) (simp_all add: is_start_def job_inv_serve job_inv_settle job_inv_wake job_inv_poll)

lemma job_inv_exec:
  "job_inv r n s \<Longrightarrow> \<forall>e\<in>set evs. \<not> is_start e \<Longrightarrow> job_inv r n (exec conc s evs)"
  unfolding exec_def
  by (induction evs arbitrary: s) (simp_all add: job_inv_step)

text \<open>No task is in progress and no polling loop is alive.\<close>

definition quiescent :: "sys \<Rightarrow> bool" where
  "quiescent s =
     ((\<forall>t\<in>set (tasks s). t_phase t = Finished) \<and> (\<forall>r\<in>set (runs s). \<not> r_polling r))"

lemma job_inv_start:
  assumes "quiescent s0"
  shows "job_inv (length (runs s0)) (length hs) (runBulkIngest conc hs s0)"
proof -
  let ?r = "length (runs s0)"
  define s1 where "s1 = s0\<lparr>bulk := \<lparr>b_running = True, b_cancelled = False, b_total = length hs,
                            b_done = 0, b_failed = 0, b_queue = hs, b_inFlight = [],
                            b_errors = []\<rparr>,
                  runs := runs s0 @ [\<lparr>r_active = 0, r_polling = True, r_result = None\<rparr>]\<rparr>"
  have w: "working s1 = 0"
    using assms by (auto simp: working_def s1_def quiescent_def filter_empty_conv)
  have a: "accounted ?r s1"
    unfolding accounted_def using w assms
    by (auto simp: s1_def active_of_def quiescent_def)
  have j: "job_inv ?r (length hs) s1"
    unfolding job_inv_def using a assms
    by (auto simp: s1_def quiescent_def nth_append)
  from start_loop_keeps[OF a, of conc 0] job_inv_frame[OF j]
  have "job_inv ?r (length hs) (start_loop conc ?r 0 s1)" by blast
  then have "job_inv ?r (length hs) (poll ?r (start_loop conc ?r 0 s1))" by (rule job_inv_poll)
  then show ?thesis by (simp add: runBulkIngest_def Let_def s1_def)
qed

subsection \<open>Batch accounting\<close>

text \<open>
  The handle list that the handler of \<^verbatim>\<open>/ingest/all\<close> passes to \<^verbatim>\<open>runBulkIngest\<close> for explicit
  handles: trimmed, empty items dropped, cut to the limit, and not deduplicated (the
  catalog listing of \<^verbatim>\<open>listAllProductHandles\<close> is: it ends in
  \<^verbatim>\<open>Array.from(new Set(handles))\<close>).
\<close>

definition submitted :: "string \<Rightarrow> nat \<Rightarrow> handle list" where
  "submitted raw limit =
     (if 0 < limit then take limit (parse_handles raw) else parse_handles raw)"

text \<open>The accounting the specification states for a completed job over the handles \<open>hs\<close>.\<close>

definition accounting_claim :: "handle list \<Rightarrow> summary \<Rightarrow> bool" where
  "accounting_claim hs sm =
     (s_done sm + s_failed sm = s_total sm \<and> s_total sm = card (set hs))"

lemma get_ingest_all_launches:
  assumes "\<not> b_running (bulk s0)" "parse_handles raw \<noteq> []"
  shows "get_ingest_all conc raw limit s0 = runBulkIngest conc (submitted raw limit) s0"
proof -
  have "submitted raw limit \<noteq> []"
    using assms(2) by (cases limit) (auto simp: submitted_def take_Suc split: list.splits)
  then show ?thesis
    using assms by (simp add: get_ingest_all_def launch_def Let_def submitted_def)
qed

lemma job_inv_completed:
  assumes "job_inv r n s" "r_result (runs s ! r) = Some sm" "\<not> b_cancelled (bulk s)"
  shows "s_done sm + s_failed sm = s_total sm \<and> s_total sm = n \<and>
         b_done (bulk s) + b_failed (bulk s) = b_total (bulk s)"
proof -
  from assms have np: "\<not> r_polling (runs s ! r)" by (auto simp: job_inv_def)
  with assms have "sm = summary_of (bulk s)" "working s = 0" "b_queue (bulk s) = []"
    by (auto simp: job_inv_def)
  moreover from assms(1) have "b_done (bulk s) + b_failed (bulk s) + working s +
      length (b_queue (bulk s)) = b_total (bulk s)" "b_total (bulk s) = n"
    by (simp_all add: job_inv_def accounted_def)
  ultimately show ?thesis by (simp add: summary_of_def)
qed

text \<open>
  A call of \<^verbatim>\<open>runBulkIngest\<close> made while no task and no polling loop of an earlier call is
  alive, followed by events that start no other job: once the call has returned its
  summary and no cancellation was requested, \<open>done + failed = total\<close>, and \<open>total\<close> is the
  length of the list passed, every occurrence of a handle counted.
\<close>

lemma called_directly_accounting:
  assumes "quiescent s0"
    and "\<forall>e\<in>set evs. \<not> is_start e"
    and "s = exec conc (runBulkIngest conc hs s0) evs"
    and "r_result (runs s ! length (runs s0)) = Some sm"
    and "\<not> b_cancelled (bulk s)"
  shows "s_done sm + s_failed sm = s_total sm \<and> s_total sm = length hs \<and>
         b_done (bulk s) + b_failed (bulk s) = b_total (bulk s) \<and>
         b_total (bulk s) = length hs"
proof -
  have j: "job_inv (length (runs s0)) (length hs) s"
    unfolding assms(3) using job_inv_start[OF assms(1)] assms(2) by (rule job_inv_exec)
  then have t: "b_total (bulk s) = length hs" by (simp add: job_inv_def)
  from job_inv_completed[OF j assms(4,5)] t show ?thesis by auto
qed

lemma init_quiescent: "quiescent init_sys"
  by (simp add: quiescent_def init_sys_def)

text \<open>
  The handler of \<^verbatim>\<open>/ingest/all\<close> called on the parameter \<open>a,a\<close>, its two tasks succeeding: the
  call returns \<open>total = 2\<close> for the one distinct handle.
\<close>

lemma called_directly_counts_duplicates:
  "get_ingest_all 50 ''a,a'' 0 init_sys = runBulkIngest 50 [''a'', ''a''] init_sys \<and>
   r_result (runs (exec 50 (get_ingest_all 50 ''a,a'' 0 init_sys)
       [Settle 0 Ok, Wake 0, Settle 1 Ok, Poll 0]) ! 0) =
     Some \<lparr>s_total = 2, s_done = 2, s_failed = 0, s_errors = []\<rparr> \<and>
   \<not> accounting_claim (parse_handles ''a,a'')
       \<lparr>s_total = 2, s_done = 2, s_failed = 0, s_errors = []\<rparr>"
  by code_simp


subsection \<open>Cancellation\<close>

text \<open>Once cancellation is requested, \<^verbatim>\<open>next\<close> starts nothing.\<close>

lemma cancelled_no_dispatch:
  "b_cancelled (bulk s) \<Longrightarrow> dispatch_next conc r s = s \<and> dispatch_while conc r s = s"
  by (subst dispatch_while.simps) (simp add: dispatch_next_def can_dispatch_def)

text \<open>A polling loop that finds the cancellation flag set ends: the job is Completed.\<close>

lemma cancelled_poll_completes:
  "r < length (runs s) \<Longrightarrow> r_polling (runs s ! r) \<Longrightarrow> b_cancelled (bulk s) \<Longrightarrow>
   \<not> b_running (bulk (poll r s)) \<and> r_result (runs (poll r s) ! r) = Some (summary_of (bulk s))"
  by (simp add: poll_def keep_polling_def)

text \<open>
  For a call of \<^verbatim>\<open>runBulkIngest\<close> made while nothing of an earlier call is alive, and until
  another job is started, \<open>done + failed\<close> never exceeds \<open>total\<close>.
\<close>

lemma called_directly_bounded:
  assumes "quiescent s0" "\<forall>e\<in>set evs. \<not> is_start e"
  shows "b_done (bulk (exec conc (runBulkIngest conc hs s0) evs)) +
         b_failed (bulk (exec conc (runBulkIngest conc hs s0) evs))
         \<le> b_total (bulk (exec conc (runBulkIngest conc hs s0) evs))"
proof -
  have "job_inv (length (runs s0)) (length hs) (exec conc (runBulkIngest conc hs s0) evs)"
    using job_inv_start[OF assms(1)] assms(2) by (rule job_inv_exec)
  then show ?thesis by (simp add: job_inv_def accounted_def)
qed

text \<open>
  A second call made after a cancelled one: the first call (handle \<open>a\<close>) is cancelled and
  returns while its task is still in flight; the handler is called again (handle \<open>b\<close>);
  the task of the first call then succeeds and increments the counter, which by now
  belongs to the second call; the task of the second call succeeds; cancellation is
  requested and the second call returns \<open>done = 2\<close> for \<open>total = 1\<close>.
\<close>

definition after_first_cancelled :: sys where
  "after_first_cancelled =
     exec 50 (get_ingest_all 50 ''a'' 0 init_sys) [Http cancel_request, Poll 0]"

lemma called_directly_overcounts:
  "\<not> b_running (bulk after_first_cancelled) \<and>
   r_result (runs (exec 50 (get_ingest_all 50 ''b'' 0 after_first_cancelled)
       [Settle 0 Ok, Settle 1 Ok, Http cancel_request, Poll 1]) ! 1) =
     Some \<lparr>s_total = 1, s_done = 2, s_failed = 0, s_errors = []\<rparr>"
  by code_simp


subsection \<open>The error log\<close>

definition logged :: "sys \<Rightarrow> error_entry list \<times> nat" where
  "logged s = (b_errors (bulk s), b_failed (bulk s))"

lemma logged_dispatch_next: "logged (dispatch_next conc r s) = logged s"
  by (simp add: dispatch_next_def logged_def split: list.splits)

lemma logged_dispatch_while: "logged (dispatch_while conc r s) = logged s"
proof (induction conc r s rule: dispatch_while.induct)
  case (1 conc r s)
  then show ?case
    by (subst dispatch_while.simps) (simp add: logged_dispatch_next)
qed

lemma logged_start_loop: "logged (start_loop conc r i s) = logged s"
proof (induction conc r i s rule: start_loop.induct)
  case (1 conc r i s)
  then show ?case
    by (subst start_loop.simps) (simp add: logged_dispatch_next)
qed

lemma logged_set_phase: "logged (set_phase tid ph s) = logged s"
  by (simp add: logged_def set_phase_def)

lemma logged_poll: "logged (poll r s) = logged s"
  by (simp add: logged_def poll_def)

lemma logged_cancel: "logged (cancel s) = logged s"
  by (simp add: logged_def cancel_def)

lemma logged_wake: "logged (wake conc tid s) = logged s"
  by (simp add: wake_def Let_def logged_dispatch_while logged_dispatch_next logged_set_phase)

lemma logged_runBulkIngest: "logged (runBulkIngest conc hs s) = ([], 0)"
  by (simp add: runBulkIngest_def Let_def logged_poll logged_start_loop) (simp add: logged_def)

lemma logged_settle:
  "logged (settle conc tid out s) =
     (if tid < length (tasks s) \<and> t_phase (tasks s ! tid) = Working
      then (case out of Ok \<Rightarrow> logged s
            | Failed msg \<Rightarrow> (b_errors (bulk s) @ [(t_handle (tasks s ! tid), msg)],
                             b_failed (bulk s) + 1))
      else logged s)"
  by (simp add: settle_def Let_def logged_dispatch_while logged_set_phase)
     (simp add: logged_def record_outcome_def split: outcome.splits)

definition log_ok :: "sys \<Rightarrow> bool" where
  "log_ok s = (length (fst (logged s)) = snd (logged s))"

lemma log_ok_launch: "log_ok s \<Longrightarrow> log_ok (launch conc limit hs s)"
  by (simp add: launch_def Let_def log_ok_def logged_runBulkIngest)

lemma log_ok_step: "log_ok s \<Longrightarrow> log_ok (step conc s e)"
proof (cases e)
  case (Http rq)
  assume "log_ok s"
  then show ?thesis
    using Http serve_cases[of conc rq s] by (auto simp: log_ok_def logged_cancel)
next
  case (ListingDone k listing)
  assume "log_ok s"
  then have "log_ok (s\<lparr>pending := take k (pending s) @ drop (Suc k) (pending s)\<rparr>)"
    by (simp add: log_ok_def logged_def)
  then show ?thesis
    using ListingDone \<open>log_ok s\<close>
    by (simp add: listing_done_def Let_def log_ok_launch split: option.splits)
next
  case (Settle tid out)
  assume "log_ok s"
  then show ?thesis
    using Settle
    by (simp add: log_ok_def logged_settle split: outcome.splits) (simp add: logged_def)
next
  case (Wake tid)
  assume "log_ok s"
  then show ?thesis using Wake by (simp add: log_ok_def logged_wake)
next
  case (Poll r)
  assume "log_ok s"
  then show ?thesis using Poll by (simp add: log_ok_def logged_poll)
qed

lemma log_ok_exec: "log_ok s \<Longrightarrow> log_ok (exec conc s evs)"
  unfolding exec_def by (induction evs arbitrary: s) (simp_all add: log_ok_step)

text \<open>
  What the specification states of the error log: it never holds more than 20 entries,
  and the sample reported at completion is drawn from the 20 most recent entries.
\<close>

definition error_log_bounded :: "sys \<Rightarrow> bool" where
  "error_log_bounded s = (length (b_errors (bulk s)) \<le> 20)"

definition sample_is_recent :: "summary \<Rightarrow> sys \<Rightarrow> bool" where
  "sample_is_recent sm s =
     (set (s_errors sm) \<subseteq> set (drop (length (b_errors (bulk s)) - 20) (b_errors (bulk s))))"

text \<open>
  In \<^verbatim>\<open>runBulkIngest\<close> the log is never truncated: after a call, a failing task appends its
  record at the end, the length of the log equals the failed counter, and the summary
  returned holds the first 20 entries of the log (the status route alone shows the last
  entries, \<^verbatim>\<open>errors.slice(-10)\<close>).
\<close>

lemma called_directly_log_grows:
  "length (b_errors (bulk (exec conc (runBulkIngest conc hs s0) evs))) =
     b_failed (bulk (exec conc (runBulkIngest conc hs s0) evs)) \<and>
   (tid < length (tasks s) \<and> t_phase (tasks s ! tid) = Working \<longrightarrow>
      b_errors (bulk (settle conc tid (Failed msg) s)) =
        b_errors (bulk s) @ [(t_handle (tasks s ! tid), msg)]) \<and>
   (r < length (runs s) \<and> r_polling (runs s ! r) \<and> \<not> keep_polling r s \<longrightarrow>
      r_result (runs (poll r s) ! r) = Some (summary_of (bulk s)) \<and>
      s_errors (summary_of (bulk s)) = take 20 (b_errors (bulk s)))"
proof -
  have "log_ok (exec conc (runBulkIngest conc hs s0) evs)"
    by (rule log_ok_exec) (simp add: log_ok_def logged_runBulkIngest)
  then have a: "length (b_errors (bulk (exec conc (runBulkIngest conc hs s0) evs))) =
      b_failed (bulk (exec conc (runBulkIngest conc hs s0) evs))" by (simp add: log_ok_def logged_def)
  have b: "b_errors (bulk (settle conc tid (Failed msg) s)) =
        b_errors (bulk s) @ [(t_handle (tasks s ! tid), msg)]"
    if "tid < length (tasks s)" "t_phase (tasks s ! tid) = Working"
    using logged_settle[of conc tid "Failed msg" s] that by (simp add: logged_def)
  have c: "r_result (runs (poll r s) ! r) = Some (summary_of (bulk s)) \<and>
      s_errors (summary_of (bulk s)) = take 20 (b_errors (bulk s))"
    if "r < length (runs s)" "r_polling (runs s ! r)" "\<not> keep_polling r s"
    using that by (simp add: poll_def summary_of_def)
  show ?thesis using a b c by blast
qed

text \<open>Twenty-one handles, and the events of a job over them in which every task fails.\<close>

definition failing_handles :: string where
  "failing_handles =
     ''h01,h02,h03,h04,h05,h06,h07,h08,h09,h10,h11,h12,h13,h14,h15,h16,h17,h18,h19,h20,h21''"

definition all_fail :: "event list" where
  "all_fail =
     [Settle 0 (Failed ''No product''), Wake 0]
     @ map (\<lambda>tid. Settle tid (Failed ''No product'')) [1..<21]
     @ [Poll 0]"

lemma called_directly_log_unbounded:
  "r_result (runs (exec 50 (get_ingest_all 50 failing_handles 0 init_sys) all_fail) ! 0) =
     Some (summary_of (bulk (exec 50 (get_ingest_all 50 failing_handles 0 init_sys) all_fail))) \<and>
   length (b_errors (bulk (exec 50 (get_ingest_all 50 failing_handles 0 init_sys) all_fail))) = 21 \<and>
   \<not> error_log_bounded (exec 50 (get_ingest_all 50 failing_handles 0 init_sys) all_fail) \<and>
   \<not> sample_is_recent
        (summary_of (bulk (exec 50 (get_ingest_all 50 failing_handles 0 init_sys) all_fail)))
        (exec 50 (get_ingest_all 50 failing_handles 0 init_sys) all_fail)"
  by code_simp


end
